theory Spec2Isabelle
  imports Main "HOL-Library.Word"
begin

unbundle bit_operations_syntax

section \<open>Registration of global memory roots (runtime/globroots.c)\<close>

text \<open>
  A shallow embedding of \<^verbatim>\<open>runtime/globroots.c\<close>: the three global root lists, the
  insertion and deletion helpers, the generational register / remove / modify operations
  and the two scanning functions. The bytecode configuration is modelled
  (\<^verbatim>\<open>NATIVE_CODE\<close> undefined), so \<^verbatim>\<open>scan_native_globals\<close> is not part of the scans.
  The model runs the operations of one thread, one after the other: every access to the
  lists is made under \<open>roots_mutex\<close>, or by the thread that holds it while it scans.
\<close>

subsection \<open>Machine types\<close>

type_synonym uintnat = "64 word"

text \<open>A root \<^verbatim>\<open>value *r\<close> is identified by its address, cast to \<^verbatim>\<open>uintnat\<close>.\<close>
type_synonym addr = uintnat

text \<open>The C type \<^verbatim>\<open>value\<close> (an \<^verbatim>\<open>intnat\<close>).\<close>
type_synonym camlvalue = "64 word"

text \<open>\<^verbatim>\<open>enum { ROOT_PRESENT = 0, ROOT_DELETED = 1 }\<close>\<close>

definition ROOT_PRESENT :: uintnat where
  "ROOT_PRESENT = 0"

definition ROOT_DELETED :: uintnat where
  "ROOT_DELETED = 1"

subsection \<open>The skip list\<close>

text \<open>
  Modelled from the spec: \<^verbatim>\<open>caml/skiplist.h\<close> and \<^verbatim>\<open>skiplist.c\<close> are not among the
  sources. The spec consumes the container "only through its map contract: keyed insert,
  keyed remove, keyed find-mutable-slot, empty, and mutation-safe ordered iteration". A
  skip list is therefore the list of its cells (key, data) in the order of iteration,
  which is the ascending order of the keys.
\<close>

type_synonym skiplist = "(uintnat \<times> uintnat) list"

text \<open>
  Modelled from the spec: keyed insert. The search stops at the first cell whose key is
  not below the new key; a cell with the same key gets the new data, otherwise a new cell
  is linked in front of it.
\<close>

fun caml_skiplist_insert :: "skiplist \<Rightarrow> uintnat \<Rightarrow> uintnat \<Rightarrow> skiplist" where
  "caml_skiplist_insert [] key data = [(key, data)]"
| "caml_skiplist_insert ((k, d) # sk) key data =
     (if k < key then (k, d) # caml_skiplist_insert sk key data
      else if k = key then (key, data) # sk
      else (key, data) # (k, d) # sk)"

text \<open>Modelled from the spec: keyed remove; a key that is not there changes nothing.\<close>

definition caml_skiplist_remove :: "skiplist \<Rightarrow> uintnat \<Rightarrow> skiplist" where
  "caml_skiplist_remove sk key = filter (\<lambda>c. fst c \<noteq> key) sk"

text \<open>
  Modelled from the spec: keyed find-mutable-slot. \<^verbatim>\<open>caml_skiplist_find_ptr\<close> returns a
  pointer to the data of the cell, or \<^verbatim>\<open>NULL\<close>; the model returns the data the pointer
  points to, and \<open>store_data\<close> is the assignment through that pointer.
\<close>

definition caml_skiplist_find_ptr :: "skiplist \<Rightarrow> uintnat \<Rightarrow> uintnat option" where
  "caml_skiplist_find_ptr sk key = map_of sk key"

definition store_data :: "skiplist \<Rightarrow> uintnat \<Rightarrow> uintnat \<Rightarrow> skiplist" where
  "store_data sk key data = map (\<lambda>c. if fst c = key then (fst c, data) else c) sk"

text \<open>Modelled from the spec: empty.\<close>

definition caml_skiplist_empty :: "skiplist \<Rightarrow> skiplist" where
  "caml_skiplist_empty sk = []"

text \<open>Modelled from the spec: a statically initialised skip list has no cell.\<close>

definition SKIPLIST_STATIC_INITIALIZER :: skiplist where
  "SKIPLIST_STATIC_INITIALIZER = []"

text \<open>The keys of a list, and the roots that a scan of the list treats as live.\<close>

definition keys :: "skiplist \<Rightarrow> uintnat set" where
  "keys sk = fst ` set sk"

definition present :: "skiplist \<Rightarrow> addr \<Rightarrow> bool" where
  "present sk r = (case map_of sk r of None \<Rightarrow> False | Some d \<Rightarrow> d \<noteq> ROOT_DELETED)"

subsection \<open>Classification of a value\<close>

text \<open>
  The macros \<^verbatim>\<open>Is_block\<close> and \<^verbatim>\<open>Is_young\<close> of \<^verbatim>\<open>caml/mlvalues.h\<close> and
  \<^verbatim>\<open>caml/address_class.h\<close> are not among the sources: they are parameters of the model.
\<close>

record heap_prims =
  Is_block :: "camlvalue \<Rightarrow> bool"
  Is_young :: "camlvalue \<Rightarrow> bool"

datatype gc_root_class = YOUNG | OLD | UNTRACKED

definition classify_gc_root :: "heap_prims \<Rightarrow> camlvalue \<Rightarrow> gc_root_class" where
  "classify_gc_root H v =
     (if \<not> Is_block H v then UNTRACKED
      else if Is_young H v then YOUNG
      else OLD)"

subsection \<open>The global state of the file\<close>

text \<open>
  \<open>slot\<close> is the memory holding the roots (\<open>slot s r\<close> is \<^verbatim>\<open>*r\<close>); \<open>roots_mutex\<close> is
  \<open>True\<close> while the mutex is locked; \<open>iterating_roots\<close> is the counter of the thread
  that runs the operations (a C \<^verbatim>\<open>int\<close>: it is incremented only under the mutex, which
  is not recursive, so it never overflows). \<open>scanned\<close> records, in order, the calls
  \<^verbatim>\<open>f(fdata, *r, r)\<close> that the scanning functions make: it is the only field that is not
  a variable of the C file.
\<close>

record globroots =
  slot :: "addr \<Rightarrow> camlvalue"
  caml_global_roots :: skiplist
  caml_global_roots_young :: skiplist
  caml_global_roots_old :: skiplist
  iterating_roots :: int
  roots_mutex :: bool
  scanned :: "(camlvalue \<times> addr) list"

text \<open>The argument \<^verbatim>\<open>struct skiplist * list\<close> points to one of the three lists.\<close>

datatype root_list = Global_roots | Global_roots_young | Global_roots_old

fun deref :: "root_list \<Rightarrow> globroots \<Rightarrow> skiplist" where
  "deref Global_roots s = caml_global_roots s"
| "deref Global_roots_young s = caml_global_roots_young s"
| "deref Global_roots_old s = caml_global_roots_old s"

fun assign :: "root_list \<Rightarrow> skiplist \<Rightarrow> globroots \<Rightarrow> globroots" where
  "assign Global_roots sk s = s\<lparr>caml_global_roots := sk\<rparr>"
| "assign Global_roots_young sk s = s\<lparr>caml_global_roots_young := sk\<rparr>"
| "assign Global_roots_old sk s = s\<lparr>caml_global_roots_old := sk\<rparr>"

text \<open>
  Modelled from the spec: \<^verbatim>\<open>caml/platform.h\<close> is not among the sources; the spec has "one
  mutual-exclusion lock shared by all three registries", acquired blocking and not
  reentrant. \<^verbatim>\<open>caml_plat_lock_blocking\<close> on a mutex that is already locked does not return
  in the model (\<open>None\<close>): the thread that runs the operations either holds the mutex
  itself, or waits for a thread that the model does not run.
\<close>

definition caml_plat_lock_blocking :: "globroots \<Rightarrow> globroots option" where
  "caml_plat_lock_blocking s = (if roots_mutex s then None else Some (s\<lparr>roots_mutex := True\<rparr>))"

definition caml_plat_unlock :: "globroots \<Rightarrow> globroots" where
  "caml_plat_unlock s = s\<lparr>roots_mutex := False\<rparr>"

subsection \<open>Insertion and deletion\<close>

definition caml_insert_global_root :: "root_list \<Rightarrow> addr \<Rightarrow> globroots \<Rightarrow> globroots option" where
  "caml_insert_global_root list r s =
     Option.bind (caml_plat_lock_blocking s) (\<lambda>s1.
       Some (caml_plat_unlock
         (assign list (caml_skiplist_insert (deref list s1) r ROOT_PRESENT) s1)))"

definition caml_delete_global_root :: "root_list \<Rightarrow> addr \<Rightarrow> globroots \<Rightarrow> globroots option" where
  "caml_delete_global_root list r s =
     (if iterating_roots s > 0 then
        (case caml_skiplist_find_ptr (deref list s) r of
           Some p \<Rightarrow> Some (assign list (store_data (deref list s) r ROOT_DELETED) s)
         | None \<Rightarrow> Some s)
      else
        Option.bind (caml_plat_lock_blocking s) (\<lambda>s1.
          Some (caml_plat_unlock
            (assign list (caml_skiplist_remove (deref list s1) r) s1))))"

text \<open>
  The mutable kind. \<^verbatim>\<open>CAMLassert (((intnat) r & 3) == 0)\<close> is compiled out of a release
  build and checks the caller, not the lists; the model does not restrict \<open>r\<close>.
\<close>

definition caml_register_global_root :: "addr \<Rightarrow> globroots \<Rightarrow> globroots option" where
  "caml_register_global_root r s = caml_insert_global_root Global_roots r s"

definition caml_remove_global_root :: "addr \<Rightarrow> globroots \<Rightarrow> globroots option" where
  "caml_remove_global_root r s = caml_delete_global_root Global_roots r s"

subsection \<open>The generational kind\<close>

text \<open>
  \<^verbatim>\<open>Caml_check_caml_state()\<close> and the assertion on the alignment of \<open>r\<close> check the caller and
  read neither the root nor the lists; the model starts at the \<^verbatim>\<open>switch\<close>.
\<close>

definition caml_register_generational_global_root ::
    "heap_prims \<Rightarrow> addr \<Rightarrow> globroots \<Rightarrow> globroots option" where
  "caml_register_generational_global_root H r s =
     (case classify_gc_root H (slot s r) of
        YOUNG \<Rightarrow> caml_insert_global_root Global_roots_young r s
      | OLD \<Rightarrow> caml_insert_global_root Global_roots_old r s
      | UNTRACKED \<Rightarrow> Some s)"

text \<open>The case \<^verbatim>\<open>OLD\<close> falls through into the case \<^verbatim>\<open>YOUNG\<close>.\<close>

definition caml_remove_generational_global_root ::
    "heap_prims \<Rightarrow> addr \<Rightarrow> globroots \<Rightarrow> globroots option" where
  "caml_remove_generational_global_root H r s =
     (case classify_gc_root H (slot s r) of
        OLD \<Rightarrow>
          Option.bind (caml_delete_global_root Global_roots_old r s)
            (caml_delete_global_root Global_roots_young r)
      | YOUNG \<Rightarrow> caml_delete_global_root Global_roots_young r s
      | UNTRACKED \<Rightarrow> Some s)"

definition caml_modify_generational_global_root ::
    "heap_prims \<Rightarrow> addr \<Rightarrow> camlvalue \<Rightarrow> globroots \<Rightarrow> globroots option" where
  "caml_modify_generational_global_root H r newval s =
     Option.bind
       (case classify_gc_root H newval of
          YOUNG \<Rightarrow>
            (let c = classify_gc_root H (slot s r) in
             Option.bind
               (if c = OLD then caml_delete_global_root Global_roots_old r s else Some s)
               (\<lambda>s1. if c \<noteq> YOUNG then caml_insert_global_root Global_roots_young r s1
                     else Some s1))
        | OLD \<Rightarrow>
            (if classify_gc_root H (slot s r) = UNTRACKED
             then caml_insert_global_root Global_roots_old r s
             else Some s)
        | UNTRACKED \<Rightarrow> caml_remove_generational_global_root H r s)
       (\<lambda>s1. Some (s1\<lparr>slot := (slot s1)(r := newval)\<rparr>))"

subsection \<open>The scanning action\<close>

text \<open>
  A \<^verbatim>\<open>scanning_action\<close> \<^verbatim>\<open>f(fdata, v, r)\<close> is code of the collector, or of its client. What
  it can do to the state of this file is to store into a root and to call the exported
  functions of the file; the model of an action gives, for the value and the address it is
  called with, the sequence of these steps.
\<close>

datatype step =
    Store addr camlvalue
  | Register_global_root addr
  | Remove_global_root addr
  | Register_generational_global_root addr
  | Remove_generational_global_root addr
  | Modify_generational_global_root addr camlvalue

type_synonym scanning_action = "camlvalue \<Rightarrow> addr \<Rightarrow> step list"

fun run_step :: "heap_prims \<Rightarrow> step \<Rightarrow> globroots \<Rightarrow> globroots option" where
  "run_step H (Store r v) s = Some (s\<lparr>slot := (slot s)(r := v)\<rparr>)"
| "run_step H (Register_global_root r) s = caml_register_global_root r s"
| "run_step H (Remove_global_root r) s = caml_remove_global_root r s"
| "run_step H (Register_generational_global_root r) s =
     caml_register_generational_global_root H r s"
| "run_step H (Remove_generational_global_root r) s =
     caml_remove_generational_global_root H r s"
| "run_step H (Modify_generational_global_root r v) s =
     caml_modify_generational_global_root H r v s"

fun run_steps :: "heap_prims \<Rightarrow> step list \<Rightarrow> globroots \<Rightarrow> globroots option" where
  "run_steps H [] s = Some s"
| "run_steps H (c # cs) s = Option.bind (run_step H c s) (run_steps H cs)"

definition call_action :: "heap_prims \<Rightarrow> scanning_action \<Rightarrow> addr \<Rightarrow> globroots \<Rightarrow> globroots option" where
  "call_action H f r s =
     run_steps H (f (slot s r) r) (s\<lparr>scanned := scanned s @ [(slot s r, r)]\<rparr>)"

subsection \<open>Iteration over a root list\<close>

text \<open>
  \<^verbatim>\<open>FOREACH_SKIPLIST_ELEMENT\<close> walks the cells in order, reading the link to the next cell
  before it runs the body, so that the body may unlink the current cell. During a scan
  \<open>iterating_roots\<close> is positive, so that nothing else unlinks a cell, and a cell cannot be
  linked without the mutex, which the scan holds: the walk visits the keys that the list
  had when it started. The data of a cell is read when the walk reaches it. Reaching a cell that is
  no longer in the list would be a read of freed memory (\<open>None\<close>).
\<close>

fun foreach_cell ::
    "heap_prims \<Rightarrow> scanning_action \<Rightarrow> root_list \<Rightarrow> uintnat list \<Rightarrow> globroots \<Rightarrow> globroots option" where
  "foreach_cell H f rootlist [] s = Some s"
| "foreach_cell H f rootlist (key # rest) s =
     (case map_of (deref rootlist s) key of
        None \<Rightarrow> None
      | Some data \<Rightarrow>
          Option.bind
            (if data = ROOT_DELETED
             then Some (assign rootlist (caml_skiplist_remove (deref rootlist s) key) s)
             else call_action H f key s)
            (foreach_cell H f rootlist rest))"

text \<open>
  \<^verbatim>\<open>CAMLassert(iterating_roots > 0)\<close> is compiled out of a release build, as the other
  assertions of the file are; both scans increment the counter before they iterate.
\<close>

definition caml_iterate_global_roots ::
    "heap_prims \<Rightarrow> scanning_action \<Rightarrow> root_list \<Rightarrow> globroots \<Rightarrow> globroots option" where
  "caml_iterate_global_roots H f rootlist s =
     foreach_cell H f rootlist (map fst (deref rootlist s)) s"

subsection \<open>The two scans\<close>

definition caml_scan_global_roots ::
    "heap_prims \<Rightarrow> scanning_action \<Rightarrow> globroots \<Rightarrow> globroots option" where
  "caml_scan_global_roots H f s =
     Option.bind (caml_plat_lock_blocking s) (\<lambda>s1.
     Option.bind (caml_iterate_global_roots H f Global_roots
                    (s1\<lparr>iterating_roots := iterating_roots s1 + 1\<rparr>)) (\<lambda>s2.
     Option.bind (caml_iterate_global_roots H f Global_roots_young s2) (\<lambda>s3.
     Option.bind (caml_iterate_global_roots H f Global_roots_old s3) (\<lambda>s4.
       Some (caml_plat_unlock (s4\<lparr>iterating_roots := iterating_roots s4 - 1\<rparr>))))))"

text \<open>
  "Move young roots to old roots": the second \<^verbatim>\<open>FOREACH_SKIPLIST_ELEMENT\<close> of
  \<^verbatim>\<open>caml_scan_global_young_roots\<close> inserts the key of every cell of the young list into the
  old list, with data \<^verbatim>\<open>0\<close>, and does not read the data of the cell.
\<close>

fun move_young_cells :: "skiplist \<Rightarrow> skiplist \<Rightarrow> skiplist" where
  "move_young_cells [] old = old"
| "move_young_cells ((key, data) # young) old =
     move_young_cells young (caml_skiplist_insert old key 0)"

definition move_young_to_old :: "globroots \<Rightarrow> globroots" where
  "move_young_to_old s =
     s\<lparr>caml_global_roots_old :=
         move_young_cells (caml_global_roots_young s) (caml_global_roots_old s),
       caml_global_roots_young := caml_skiplist_empty (caml_global_roots_young s)\<rparr>"

definition caml_scan_global_young_roots ::
    "heap_prims \<Rightarrow> scanning_action \<Rightarrow> globroots \<Rightarrow> globroots option" where
  "caml_scan_global_young_roots H f s =
     Option.bind (caml_plat_lock_blocking s) (\<lambda>s1.
     Option.bind (caml_iterate_global_roots H f Global_roots
                    (s1\<lparr>iterating_roots := iterating_roots s1 + 1\<rparr>)) (\<lambda>s2.
     Option.bind (caml_iterate_global_roots H f Global_roots_young s2) (\<lambda>s3.
       (let s4 = move_young_to_old s3
        in Some (caml_plat_unlock (s4\<lparr>iterating_roots := iterating_roots s4 - 1\<rparr>))))))"

subsection \<open>Sequences of operations\<close>

text \<open>
  The entry points of the file, as the clients and the collector call them. \<open>Call\<close> is a
  call from outside of a scan (or a plain store into the memory of the roots); the two
  scans take their scanning action.
\<close>

datatype operation =
    Call step
  | Scan_global_roots scanning_action
  | Scan_global_young_roots scanning_action

fun run_operation :: "heap_prims \<Rightarrow> operation \<Rightarrow> globroots \<Rightarrow> globroots option" where
  "run_operation H (Call c) s = run_step H c s"
| "run_operation H (Scan_global_roots f) s = caml_scan_global_roots H f s"
| "run_operation H (Scan_global_young_roots f) s = caml_scan_global_young_roots H f s"

fun run_operations :: "heap_prims \<Rightarrow> operation list \<Rightarrow> globroots \<Rightarrow> globroots option" where
  "run_operations H [] s = Some s"
| "run_operations H (op # ops) s = Option.bind (run_operation H op s) (run_operations H ops)"

subsection \<open>Predicates of the statements\<close>

text \<open>The state of a freshly started runtime, over a memory \<open>m\<close>.\<close>

definition init_state :: "(addr \<Rightarrow> camlvalue) \<Rightarrow> globroots" where
  "init_state m =
     \<lparr>slot = m,
      caml_global_roots = SKIPLIST_STATIC_INITIALIZER,
      caml_global_roots_young = SKIPLIST_STATIC_INITIALIZER,
      caml_global_roots_old = SKIPLIST_STATIC_INITIALIZER,
      iterating_roots = 0,
      roots_mutex = False,
      scanned = []\<rparr>"

text \<open>No scan is in progress and the mutex is free.\<close>

definition idle :: "globroots \<Rightarrow> bool" where
  "idle s = (iterating_roots s = 0 \<and> \<not> roots_mutex s)"

text \<open>The thread is inside a scan: it iterates and holds the mutex.\<close>

definition scanning :: "globroots \<Rightarrow> bool" where
  "scanning s = (0 < iterating_roots s \<and> roots_mutex s)"

text \<open>
  What the removal of \<open>r\<close> from a list leaves of the list, in a state \<open>s\<close>: the cell is
  marked while the thread iterates, and unlinked otherwise.
\<close>

definition removed_from :: "globroots \<Rightarrow> skiplist \<Rightarrow> addr \<Rightarrow> skiplist" where
  "removed_from s sk r =
     (if 0 < iterating_roots s then store_data sk r ROOT_DELETED
      else caml_skiplist_remove sk r)"

text \<open>The number of calls of the scanning action on the root \<open>r\<close> so far.\<close>

definition visits :: "addr \<Rightarrow> globroots \<Rightarrow> nat" where
  "visits r s = length (filter (\<lambda>c. snd c = r) (scanned s))"

text \<open>A scanning action that only stores into roots, as a collector does when it moves
  the block a root points to.\<close>

fun is_store :: "step \<Rightarrow> bool" where
  "is_store (Store r v) = True"
| "is_store _ = False"

definition stores_only :: "scanning_action \<Rightarrow> bool" where
  "stores_only f = (\<forall>v r. \<forall>c \<in> set (f v r). is_store c)"

text \<open>
  A scanning action that stores into roots and takes roots out of the lists (by removing
  them, or by giving them a value that is not a block), and registers none.
\<close>

fun removes :: "heap_prims \<Rightarrow> step \<Rightarrow> bool" where
  "removes H (Store r v) = True"
| "removes H (Remove_global_root r) = True"
| "removes H (Remove_generational_global_root r) = True"
| "removes H (Modify_generational_global_root r v) = (classify_gc_root H v = UNTRACKED)"
| "removes H c = False"

definition unregistering :: "heap_prims \<Rightarrow> scanning_action \<Rightarrow> bool" where
  "unregistering H f = (\<forall>v r. \<forall>c \<in> set (f v r). removes H c)"

text \<open>
  The values that are stored are blocks: a root is given an integer only through
  \<open>caml_modify_generational_global_root\<close>. An operation abides by this when its own
  store, and the stores of its scanning action, do.
\<close>

fun stores_block :: "heap_prims \<Rightarrow> step \<Rightarrow> bool" where
  "stores_block H (Store r v) = Is_block H v"
| "stores_block H c = True"

definition relocating :: "heap_prims \<Rightarrow> scanning_action \<Rightarrow> bool" where
  "relocating H f = (\<forall>v r. \<forall>c \<in> set (f v r). stores_block H c)"

fun abides :: "heap_prims \<Rightarrow> operation \<Rightarrow> bool" where
  "abides H (Call c) = stores_block H c"
| "abides H (Scan_global_roots f) = relocating H f"
| "abides H (Scan_global_young_roots f) = relocating H f"

text \<open>Every live root of the young list holds a block.\<close>

definition young_roots_hold_blocks :: "heap_prims \<Rightarrow> globroots \<Rightarrow> bool" where
  "young_roots_hold_blocks H s =
     (\<forall>r. present (caml_global_roots_young s) r \<longrightarrow>
        classify_gc_root H (slot s r) \<noteq> UNTRACKED)"

text \<open>
  The representation invariant of the skip lists: the keys of the cells are strictly
  ascending. It holds of the empty lists, and insertion, removal and marking keep it.
\<close>

definition ascending :: "skiplist \<Rightarrow> bool" where
  "ascending sk = sorted_wrt (<) (map fst sk)"

definition lists_ascending :: "globroots \<Rightarrow> bool" where
  "lists_ascending s =
     (ascending (caml_global_roots s) \<and> ascending (caml_global_roots_young s) \<and>
      ascending (caml_global_roots_old s))"

text \<open>The number of cells of a list that are not marked as deleted.\<close>

definition live_cells :: "skiplist \<Rightarrow> nat" where
  "live_cells sk = length (filter (\<lambda>c. snd c \<noteq> ROOT_DELETED) sk)"

text \<open>
  Two states with the same cells in every list, up to the data of the cells, and the same
  counter, mutex and record of calls.
\<close>

definition same_cells :: "globroots \<Rightarrow> globroots \<Rightarrow> bool" where
  "same_cells s s' =
     (iterating_roots s' = iterating_roots s \<and> roots_mutex s' = roots_mutex s \<and>
      scanned s' = scanned s \<and>
      map fst (caml_global_roots s') = map fst (caml_global_roots s) \<and>
      map fst (caml_global_roots_young s') = map fst (caml_global_roots_young s) \<and>
      map fst (caml_global_roots_old s') = map fst (caml_global_roots_old s))"

text \<open>
  The part of "the invariant of the generational roots" that needs no knowledge of which
  roots are registered: a root that holds no block is live in neither the young nor the old
  list, and a live root of the old list does not point to the young generation.
\<close>

definition untracked_roots_unlisted :: "heap_prims \<Rightarrow> globroots \<Rightarrow> bool" where
  "untracked_roots_unlisted H s =
     (\<forall>r. (classify_gc_root H (slot s r) = UNTRACKED \<longrightarrow>
            \<not> present (caml_global_roots_young s) r \<and> \<not> present (caml_global_roots_old s) r) \<and>
          (classify_gc_root H (slot s r) = YOUNG \<longrightarrow> \<not> present (caml_global_roots_old s) r))"

text \<open>
  The scanning actions of a collector. During a full scan the action may call the functions
  of this file, and it stores only pointers to the old generation (\<open>marking\<close>). During a
  minor scan the action only stores such pointers, and it stores one into every root that
  it finds pointing to the young generation (\<open>oldifying\<close>). Outside of the scans the
  clients call the functions of this file.
\<close>

fun stores_old :: "heap_prims \<Rightarrow> step \<Rightarrow> bool" where
  "stores_old H (Store r v) = (classify_gc_root H v = OLD)"
| "stores_old H c = True"

definition marking :: "heap_prims \<Rightarrow> scanning_action \<Rightarrow> bool" where
  "marking H f = (\<forall>v r. \<forall>c \<in> set (f v r). stores_old H c)"

definition oldifying :: "heap_prims \<Rightarrow> scanning_action \<Rightarrow> bool" where
  "oldifying H f =
     (\<forall>v r. (\<forall>c \<in> set (f v r). is_store c \<and> stores_old H c) \<and>
            (classify_gc_root H v = YOUNG \<longrightarrow> (\<exists>w. Store r w \<in> set (f v r))))"

fun collecting :: "heap_prims \<Rightarrow> operation \<Rightarrow> bool" where
  "collecting H (Call c) = (\<not> is_store c)"
| "collecting H (Scan_global_roots f) = marking H f"
| "collecting H (Scan_global_young_roots f) = oldifying H f"

subsection \<open>States and inputs used to run the model\<close>

text \<open>
  A heap: a block is a value with the low bit clear, and the young generation is the range
  of addresses between \<^verbatim>\<open>0x1000\<close> and \<^verbatim>\<open>0x2000\<close>.
\<close>

definition test_heap :: heap_prims where
  "test_heap = \<lparr>Is_block = (\<lambda>v. v AND 1 = 0), Is_young = (\<lambda>v. 0x1000 < v \<and> v < 0x2000)\<rparr>"

text \<open>
  A memory: the roots at \<^verbatim>\<open>0x100\<close> and \<^verbatim>\<open>0x108\<close> hold pointers into the young
  generation, the root at \<^verbatim>\<open>0x200\<close> a pointer to a block outside of it, and every other
  address holds the integer \<^verbatim>\<open>Val_long(0)\<close>.
\<close>

definition test_mem :: "addr \<Rightarrow> camlvalue" where
  "test_mem =
     (\<lambda>r. if r = 0x100 then 0x1008 else if r = 0x108 then 0x1010
          else if r = 0x200 then 0x3000 else 1)"

text \<open>
  A state with one root in each list, outside of a scan and inside of one.
\<close>

definition test_state :: globroots where
  "test_state =
     (init_state test_mem)
       \<lparr>caml_global_roots := [(0x300, 0)],
        caml_global_roots_young := [(0x100, 0)],
        caml_global_roots_old := [(0x200, 0)]\<rparr>"

definition test_state_scanning :: globroots where
  "test_state_scanning = test_state\<lparr>iterating_roots := 1, roots_mutex := True\<rparr>"

text \<open>
  Scanning actions: one that does nothing, one that moves the block of the root out of the
  young generation, one that unregisters the root it is called on, and one that stores
  \<^verbatim>\<open>Val_long(0)\<close> into it through \<open>caml_modify_generational_global_root\<close>.
\<close>

definition no_action :: scanning_action where
  "no_action v r = []"

definition relocate_action :: scanning_action where
  "relocate_action v r = [Store r (v + 0x2000)]"

definition unregister_action :: scanning_action where
  "unregister_action v r = [Remove_generational_global_root r]"

definition untrack_action :: scanning_action where
  "untrack_action v r = [Modify_generational_global_root r 1]"

text \<open>
  The states that the runs below end in: the root \<^verbatim>\<open>0x100\<close> registered while young and
  then modified to point to the old generation; the same root given an integer by the
  scanning action of a minor scan; and \<open>test_state\<close> after a minor scan whose action
  unregisters the roots.
\<close>

definition young_root_redirected :: globroots where
  "young_root_redirected =
     (init_state test_mem)
       \<lparr>slot := (slot (init_state test_mem))(0x100 := 0x3000),
        caml_global_roots_young := [(0x100, ROOT_PRESENT)]\<rparr>"

definition untracked_in_old :: globroots where
  "untracked_in_old =
     (init_state test_mem)
       \<lparr>slot := (slot (init_state test_mem))(0x100 := 1),
        caml_global_roots_old := [(0x100, ROOT_PRESENT)],
        scanned := [(0x1008, 0x100)]\<rparr>"

text \<open>
  The root \<^verbatim>\<open>0x100\<close> registered and then unregistered by the scanning action of a minor
  scan, and the same state after the root has been registered again and given the integer
  \<^verbatim>\<open>Val_long(0)\<close>.
\<close>

definition unregistered_in_old :: globroots where
  "unregistered_in_old =
     (init_state test_mem)
       \<lparr>caml_global_roots_old := [(0x100, ROOT_PRESENT)],
        scanned := [(0x1008, 0x100)]\<rparr>"

definition untracked_left_in_old :: globroots where
  "untracked_left_in_old =
     unregistered_in_old\<lparr>slot := (slot unregistered_in_old)(0x100 := 1)\<rparr>"

definition tombstone_promoted :: globroots where
  "tombstone_promoted =
     test_state
       \<lparr>caml_global_roots_young := [],
        caml_global_roots_old := [(0x100, ROOT_PRESENT), (0x200, ROOT_PRESENT)],
        scanned := [(1, 0x300), (0x1008, 0x100)]\<rparr>"

section \<open>Properties\<close>

subsection \<open>The skip list\<close>

lemma keys_insert: "keys (caml_skiplist_insert sk k d) = insert k (keys sk)"
  by (induction sk k d rule: caml_skiplist_insert.induct) (auto simp: keys_def)

lemma map_of_insert: "map_of (caml_skiplist_insert sk k d) = (map_of sk)(k \<mapsto> d)"
  by (induction sk k d rule: caml_skiplist_insert.induct) (auto simp: fun_eq_iff)

lemma length_insert_new:
  "k \<notin> keys sk \<Longrightarrow> length (caml_skiplist_insert sk k d) = Suc (length sk)"
  by (induction sk k d rule: caml_skiplist_insert.induct) (auto simp: keys_def)

lemma keys_remove: "keys (caml_skiplist_remove sk k) = keys sk - {k}"
  by (auto simp: keys_def caml_skiplist_remove_def)

lemma map_of_remove: "map_of (caml_skiplist_remove sk k) = (map_of sk)(k := None)"
  by (induction sk) (auto simp: caml_skiplist_remove_def fun_eq_iff)

lemma remove_absent: "k \<notin> keys sk \<Longrightarrow> caml_skiplist_remove sk k = sk"
  by (induction sk) (auto simp: caml_skiplist_remove_def keys_def)

lemma remove_insert_new:
  "k \<notin> keys sk \<Longrightarrow> caml_skiplist_remove (caml_skiplist_insert sk k d) k = sk"
proof (induction sk k d rule: caml_skiplist_insert.induct)
  case (1 key data)
  then show ?case by (simp add: caml_skiplist_remove_def)
next
  case (2 k d sk key data)
  from "2.prems" have a: "key \<notin> keys sk" and n: "k \<noteq> key"
    by (auto simp: keys_def)
  have r: "caml_skiplist_remove sk key = sk"
    using a by (rule remove_absent)
  show ?case
  proof (cases "k < key")
    case True
    with 2 a n show ?thesis by (simp add: caml_skiplist_remove_def)
  next
    case False
    with n r show ?thesis by (simp add: caml_skiplist_remove_def)
  qed
qed

lemma map_fst_store_data: "map fst (store_data sk k d) = map fst sk"
  by (induction sk) (auto simp: store_data_def)

lemma keys_store_data: "keys (store_data sk k d) = keys sk"
  using map_fst_store_data [of sk k d] by (metis keys_def list.set_map)

lemma map_of_store_data:
  "map_of (store_data sk k d) j =
     (if j = k then map_option (\<lambda>_. d) (map_of sk k) else map_of sk j)"
  by (induction sk) (auto simp: store_data_def)

lemma store_data_absent: "k \<notin> keys sk \<Longrightarrow> store_data sk k d = sk"
  by (induction sk) (auto simp: store_data_def keys_def)

lemma find_ptr_None: "caml_skiplist_find_ptr sk k = None \<longleftrightarrow> k \<notin> keys sk"
  by (simp add: caml_skiplist_find_ptr_def keys_def map_of_eq_None_iff)

lemma map_of_None_keys: "map_of sk k = None \<longleftrightarrow> k \<notin> keys sk"
  by (simp add: keys_def map_of_eq_None_iff)

lemma present_keys: "present sk r \<Longrightarrow> r \<in> keys sk"
  by (auto simp: present_def keys_def dest: map_of_SomeD split: option.splits
      intro: rev_image_eqI)

subsection \<open>Insertion and deletion in a state\<close>

lemma assign_deref [simp]: "assign l (deref l s) s = s"
  by (cases l) simp_all

lemma deref_assign [simp]: "deref l (assign l' sk s) = (if l = l' then sk else deref l s)"
  by (cases l; cases l') simp_all

lemma assign_fields [simp]:
  "slot (assign l sk s) = slot s"
  "iterating_roots (assign l sk s) = iterating_roots s"
  "roots_mutex (assign l sk s) = roots_mutex s"
  "scanned (assign l sk s) = scanned s"
  by (cases l; simp)+

lemma delete_iterating:
  "0 < iterating_roots s \<Longrightarrow>
   caml_delete_global_root l r s = Some (assign l (store_data (deref l s) r ROOT_DELETED) s)"
  by (auto simp: caml_delete_global_root_def find_ptr_None store_data_absent
      split: option.splits)

lemma delete_unlocked:
  "\<not> 0 < iterating_roots s \<Longrightarrow> \<not> roots_mutex s \<Longrightarrow>
   caml_delete_global_root l r s = Some (assign l (caml_skiplist_remove (deref l s) r) s)"
  by (cases l)
    (simp_all add: caml_delete_global_root_def caml_plat_lock_blocking_def
      caml_plat_unlock_def)

lemma delete_locked:
  "\<not> 0 < iterating_roots s \<Longrightarrow> roots_mutex s \<Longrightarrow> caml_delete_global_root l r s = None"
  by (simp add: caml_delete_global_root_def caml_plat_lock_blocking_def)

lemma delete_removed_from:
  "0 < iterating_roots s \<or> \<not> roots_mutex s \<Longrightarrow>
   caml_delete_global_root l r s = Some (assign l (removed_from s (deref l s) r) s)"
  by (cases "0 < iterating_roots s")
    (simp_all add: removed_from_def delete_iterating delete_unlocked)

lemma insert_unlocked:
  "\<not> roots_mutex s \<Longrightarrow>
   caml_insert_global_root l r s =
     Some (assign l (caml_skiplist_insert (deref l s) r ROOT_PRESENT) s)"
  by (cases l)
    (simp_all add: caml_insert_global_root_def caml_plat_lock_blocking_def
      caml_plat_unlock_def)

lemma insert_locked: "roots_mutex s \<Longrightarrow> caml_insert_global_root l r s = None"
  by (simp add: caml_insert_global_root_def caml_plat_lock_blocking_def)

text \<open>The definitions that a run of the model on a concrete state unfolds.\<close>

lemmas run_defs =
  init_state_def test_heap_def test_mem_def idle_def SKIPLIST_STATIC_INITIALIZER_def
  ROOT_PRESENT_def ROOT_DELETED_def classify_gc_root_def keys_def present_def
  caml_skiplist_remove_def caml_skiplist_find_ptr_def store_data_def
  caml_skiplist_empty_def caml_plat_lock_blocking_def caml_plat_unlock_def
  caml_insert_global_root_def caml_delete_global_root_def
  caml_register_global_root_def caml_remove_global_root_def
  caml_register_generational_global_root_def caml_remove_generational_global_root_def
  caml_modify_generational_global_root_def call_action_def
  caml_iterate_global_roots_def caml_scan_global_roots_def move_young_to_old_def
  caml_scan_global_young_roots_def removed_from_def

subsection \<open>The generational operations outside of a scan\<close>

lemma map_of_Some_keys: "k \<in> keys sk \<Longrightarrow> \<exists>d. map_of sk k = Some d"
  by (cases "map_of sk k") (simp_all add: map_of_None_keys)

lemmas test_defs = test_state_def test_state_scanning_def run_defs

lemma remove_generational_result:
  assumes "0 < iterating_roots s \<or> \<not> roots_mutex s"
  shows "caml_remove_generational_global_root H r s =
     Some (case classify_gc_root H (slot s r) of
        OLD \<Rightarrow>
          s\<lparr>caml_global_roots_old := removed_from s (caml_global_roots_old s) r,
            caml_global_roots_young := removed_from s (caml_global_roots_young s) r\<rparr>
      | YOUNG \<Rightarrow> s\<lparr>caml_global_roots_young := removed_from s (caml_global_roots_young s) r\<rparr>
      | UNTRACKED \<Rightarrow> s)"
proof (cases "classify_gc_root H (slot s r)")
  case YOUNG
  then show ?thesis
    using assms delete_removed_from [of s Global_roots_young r]
    by (simp add: caml_remove_generational_global_root_def)
next
  case OLD
  let ?s1 = "assign Global_roots_old (removed_from s (caml_global_roots_old s) r) s"
  have 1: "caml_delete_global_root Global_roots_old r s = Some ?s1"
    using assms delete_removed_from [of s Global_roots_old r] by simp
  have "0 < iterating_roots ?s1 \<or> \<not> roots_mutex ?s1"
    using assms by simp
  then have 2: "caml_delete_global_root Global_roots_young r ?s1 =
      Some (assign Global_roots_young (removed_from ?s1 (deref Global_roots_young ?s1) r) ?s1)"
    by (rule delete_removed_from)
  show ?thesis
    using OLD 1 2 by (simp add: caml_remove_generational_global_root_def removed_from_def)
next
  case UNTRACKED
  then show ?thesis
    by (simp add: caml_remove_generational_global_root_def)
qed

lemma register_young:
  "\<not> roots_mutex s \<Longrightarrow> classify_gc_root H (slot s A) = YOUNG \<Longrightarrow>
   caml_register_generational_global_root H A s =
     Some (s\<lparr>caml_global_roots_young :=
       caml_skiplist_insert (caml_global_roots_young s) A ROOT_PRESENT\<rparr>)"
  using insert_unlocked [of s Global_roots_young A]
  by (simp add: caml_register_generational_global_root_def)

lemma register_old:
  "\<not> roots_mutex s \<Longrightarrow> classify_gc_root H (slot s A) = OLD \<Longrightarrow>
   caml_register_generational_global_root H A s =
     Some (s\<lparr>caml_global_roots_old :=
       caml_skiplist_insert (caml_global_roots_old s) A ROOT_PRESENT\<rparr>)"
  using insert_unlocked [of s Global_roots_old A]
  by (simp add: caml_register_generational_global_root_def)

lemma present_insert: "present (caml_skiplist_insert sk k ROOT_PRESENT) k"
  by (simp add: present_def map_of_insert ROOT_PRESENT_def ROOT_DELETED_def)

lemma present_remove: "present (caml_skiplist_remove sk k) j \<longleftrightarrow> j \<noteq> k \<and> present sk j"
  by (simp add: present_def map_of_remove)

lemma modify_untracked:
  "classify_gc_root H i = UNTRACKED \<Longrightarrow>
   caml_modify_generational_global_root H r i s =
     Option.bind (caml_remove_generational_global_root H r s)
       (\<lambda>s1. Some (s1\<lparr>slot := (slot s1)(r := i)\<rparr>))"
  by (simp add: caml_modify_generational_global_root_def)

subsection \<open>Steps of a scanning action during a scan\<close>

lemma same_cells_refl [simp]: "same_cells s s"
  by (simp add: same_cells_def)

lemma same_cells_trans: "same_cells s s1 \<Longrightarrow> same_cells s1 s2 \<Longrightarrow> same_cells s s2"
  by (simp add: same_cells_def)

lemma same_cells_deref: "same_cells s s' \<Longrightarrow> map fst (deref l s') = map fst (deref l s)"
  by (cases l) (simp_all add: same_cells_def)

lemma same_cells_scanning: "same_cells s s' \<Longrightarrow> scanning s \<Longrightarrow> scanning s'"
  by (simp add: same_cells_def scanning_def)

lemma same_cells_slot [simp]: "same_cells s (s\<lparr>slot := m\<rparr>)"
  by (simp add: same_cells_def)

lemma delete_scanning:
  assumes "scanning s" and "caml_delete_global_root l r s = Some s'"
  shows "same_cells s s' \<and> slot s' = slot s"
proof -
  from assms(1) have "0 < iterating_roots s" by (simp add: scanning_def)
  from delete_iterating [OF this, of l r] assms(2)
  have "s' = assign l (store_data (deref l s) r ROOT_DELETED) s" by simp
  then show ?thesis
    by (cases l) (simp_all add: same_cells_def map_fst_store_data)
qed

lemma insert_scanning: "scanning s \<Longrightarrow> caml_insert_global_root l r s = None"
  by (simp add: scanning_def insert_locked)

lemma remove_generational_scanning:
  assumes "scanning s" and "caml_remove_generational_global_root H r s = Some s'"
  shows "same_cells s s' \<and> slot s' = slot s"
proof (cases "classify_gc_root H (slot s r)")
  case YOUNG
  with assms show ?thesis
    by (simp add: caml_remove_generational_global_root_def delete_scanning)
next
  case OLD
  with assms(2) obtain s1 where
    1: "caml_delete_global_root Global_roots_old r s = Some s1" and
    2: "caml_delete_global_root Global_roots_young r s1 = Some s'"
    by (auto simp: caml_remove_generational_global_root_def split: bind_splits)
  from delete_scanning [OF assms(1) 1] have a: "same_cells s s1" "slot s1 = slot s"
    by simp_all
  with assms(1) have "scanning s1" by (blast intro: same_cells_scanning)
  from delete_scanning [OF this 2] a show ?thesis
    by (auto intro: same_cells_trans)
next
  case UNTRACKED
  with assms(2) show ?thesis
    by (simp add: caml_remove_generational_global_root_def)
qed

lemma modify_generational_scanning:
  assumes "scanning s" and "caml_modify_generational_global_root H r v s = Some s'"
  shows "same_cells s s'"
proof -
  from assms(2) obtain s1 where
    1: "(case classify_gc_root H v of
          YOUNG \<Rightarrow>
            (let c = classify_gc_root H (slot s r) in
             Option.bind
               (if c = OLD then caml_delete_global_root Global_roots_old r s else Some s)
               (\<lambda>s1. if c \<noteq> YOUNG then caml_insert_global_root Global_roots_young r s1
                     else Some s1))
        | OLD \<Rightarrow>
            (if classify_gc_root H (slot s r) = UNTRACKED
             then caml_insert_global_root Global_roots_old r s
             else Some s)
        | UNTRACKED \<Rightarrow> caml_remove_generational_global_root H r s) = Some s1"
    and 2: "s' = s1\<lparr>slot := (slot s1)(r := v)\<rparr>"
    by (auto simp: caml_modify_generational_global_root_def split: bind_splits)
  have "same_cells s s1"
  proof (cases "classify_gc_root H v")
    case YOUNG
    show ?thesis
    proof (cases "classify_gc_root H (slot s r) = YOUNG")
      case True
      with 1 YOUNG show ?thesis by simp
    next
      case False
      with 1 YOUNG obtain s0 where
        a: "(if classify_gc_root H (slot s r) = OLD
             then caml_delete_global_root Global_roots_old r s else Some s) = Some s0"
        and b: "caml_insert_global_root Global_roots_young r s0 = Some s1"
        by (auto simp: Let_def split: bind_splits)
      have "scanning s0"
      proof (cases "classify_gc_root H (slot s r) = OLD")
        case True
        with a have "caml_delete_global_root Global_roots_old r s = Some s0" by simp
        from delete_scanning [OF assms(1) this] assms(1) show ?thesis
          by (blast intro: same_cells_scanning)
      next
        case False
        with a assms(1) show ?thesis by simp
      qed
      with b show ?thesis by (simp add: insert_scanning)
    qed
  next
    case OLD
    with 1 assms(1) show ?thesis
      by (auto simp: insert_scanning split: if_splits)
  next
    case UNTRACKED
    with 1 assms(1) show ?thesis
      by (simp add: remove_generational_scanning)
  qed
  with 2 show ?thesis
    by (simp add: same_cells_def)
qed

lemma run_step_scanning:
  assumes "scanning s" and "run_step H c s = Some s'"
  shows "same_cells s s'"
proof (cases c)
  case (Store r v)
  with assms(2) show ?thesis by auto
next
  case (Register_global_root r)
  with assms show ?thesis
    by (simp add: caml_register_global_root_def insert_scanning)
next
  case (Remove_global_root r)
  with assms show ?thesis
    by (simp add: caml_remove_global_root_def delete_scanning)
next
  case (Register_generational_global_root r)
  with assms show ?thesis
    by (auto simp: caml_register_generational_global_root_def insert_scanning
        split: gc_root_class.splits)
next
  case (Remove_generational_global_root r)
  with assms show ?thesis
    by (simp add: remove_generational_scanning)
next
  case (Modify_generational_global_root r v)
  with assms show ?thesis
    by (simp add: modify_generational_scanning)
qed

lemma run_steps_scanning:
  "scanning s \<Longrightarrow> run_steps H cs s = Some s' \<Longrightarrow> same_cells s s'"
proof (induction cs arbitrary: s)
  case Nil
  then show ?case by simp
next
  case (Cons c cs)
  from Cons.prems(2) obtain s1 where
    1: "run_step H c s = Some s1" and 2: "run_steps H cs s1 = Some s'"
    by (auto split: bind_splits)
  from run_step_scanning [OF Cons.prems(1) 1] have a: "same_cells s s1" .
  with Cons.prems(1) have "scanning s1" by (blast intro: same_cells_scanning)
  from Cons.IH [OF this 2] a show ?case
    by (rule same_cells_trans [rotated])
qed

subsection \<open>Ascending keys\<close>

lemma map_fst_remove:
  "map fst (caml_skiplist_remove sk k) = filter (\<lambda>x. x \<noteq> k) (map fst sk)"
  by (simp add: caml_skiplist_remove_def filter_map comp_def)

lemma ascending_insert: "ascending sk \<Longrightarrow> ascending (caml_skiplist_insert sk k d)"
proof (induction sk k d rule: caml_skiplist_insert.induct)
  case (1 key data)
  then show ?case by (simp add: ascending_def)
next
  case (2 k d sk key data)
  have "set (map fst (caml_skiplist_insert sk key data)) = insert key (keys sk)"
    using keys_insert [of sk key data] by (simp add: keys_def)
  with 2 show ?case
    by (auto simp: ascending_def keys_def)
qed

lemma ascending_remove: "ascending sk \<Longrightarrow> ascending (caml_skiplist_remove sk k)"
  by (simp add: ascending_def map_fst_remove sorted_wrt_filter)

lemma ascending_store_data: "ascending sk \<Longrightarrow> ascending (store_data sk k d)"
  by (simp add: ascending_def map_fst_store_data)

lemma ascending_distinct: "ascending sk \<Longrightarrow> distinct (map fst sk)"
  by (simp add: ascending_def strict_sorted_iff)

lemma ascending_move: "ascending old \<Longrightarrow> ascending (move_young_cells young old)"
  by (induction young old rule: move_young_cells.induct) (simp_all add: ascending_insert)

lemma map_of_move:
  "map_of (move_young_cells young old) k =
     (if k \<in> keys young then Some 0 else map_of old k)"
  by (induction young old rule: move_young_cells.induct)
    (auto simp: keys_def map_of_insert)

subsection \<open>The walk over a list\<close>

lemma deref_other_fields [simp]:
  "deref l (s\<lparr>scanned := x\<rparr>) = deref l s"
  "deref l (s\<lparr>slot := m\<rparr>) = deref l s"
  "deref l (s\<lparr>iterating_roots := i\<rparr>) = deref l s"
  "deref l (s\<lparr>roots_mutex := b\<rparr>) = deref l s"
  by (cases l; simp)+

lemma call_action_scanning:
  assumes "scanning s" and "call_action H f k s = Some s'"
  shows "same_cells (s\<lparr>scanned := scanned s @ [(slot s k, k)]\<rparr>) s'"
proof -
  have "scanning (s\<lparr>scanned := scanned s @ [(slot s k, k)]\<rparr>)"
    using assms(1) by (simp add: scanning_def)
  from run_steps_scanning [OF this] assms(2) show ?thesis
    by (simp add: call_action_def)
qed

lemma call_action_shape:
  assumes "scanning s" and "call_action H f k s = Some s'"
  shows "scanning s' \<and> iterating_roots s' = iterating_roots s \<and>
     scanned s' = scanned s @ [(slot s k, k)] \<and>
     (\<forall>l. map fst (deref l s') = map fst (deref l s))"
proof -
  from call_action_scanning [OF assms] have
    a: "same_cells (s\<lparr>scanned := scanned s @ [(slot s k, k)]\<rparr>) s'" .
  have "\<forall>l. map fst (deref l s') = map fst (deref l s)"
    using same_cells_deref [OF a] by simp
  with a assms(1) show ?thesis
    by (simp add: same_cells_def scanning_def)
qed

lemma scanning_assign [simp]: "scanning (assign l sk s) = scanning s"
  by (simp add: scanning_def)

lemma foreach_cell_shape:
  assumes "scanning s" and "foreach_cell H f l ks s = Some s'"
  shows "scanning s' \<and> iterating_roots s' = iterating_roots s \<and>
     (\<forall>l'. l' \<noteq> l \<longrightarrow> map fst (deref l' s') = map fst (deref l' s)) \<and>
     (\<exists>ds. set ds \<subseteq> set ks \<and>
        map fst (deref l s') = filter (\<lambda>x. x \<notin> set ds) (map fst (deref l s)))"
  using assms
proof (induction ks arbitrary: s)
  case Nil
  then have "s' = s" by simp
  moreover have "set [] \<subseteq> set ([]::uintnat list) \<and>
      map fst (deref l s) = filter (\<lambda>x. x \<notin> set []) (map fst (deref l s))"
    by simp
  ultimately show ?case using Nil.prems(1) by blast
next
  case (Cons k ks)
  from Cons.prems(2) obtain d where d: "map_of (deref l s) k = Some d"
    by (auto split: option.splits)
  let ?next = "if d = ROOT_DELETED
     then Some (assign l (caml_skiplist_remove (deref l s) k) s)
     else call_action H f k s"
  from Cons.prems(2) d obtain s1 where
    1: "?next = Some s1" and 2: "foreach_cell H f l ks s1 = Some s'"
    by (auto split: bind_splits)
  have s1: "scanning s1 \<and> iterating_roots s1 = iterating_roots s \<and>
     (\<forall>l'. l' \<noteq> l \<longrightarrow> map fst (deref l' s1) = map fst (deref l' s)) \<and>
     (\<exists>ds. set ds \<subseteq> {k} \<and>
        map fst (deref l s1) = filter (\<lambda>x. x \<notin> set ds) (map fst (deref l s)))"
  proof (cases "d = ROOT_DELETED")
    case True
    with 1 have e: "s1 = assign l (caml_skiplist_remove (deref l s) k) s" by simp
    have "set [k] \<subseteq> {k} \<and>
        map fst (deref l s1) = filter (\<lambda>x. x \<notin> set [k]) (map fst (deref l s))"
      by (simp add: e map_fst_remove)
    then have "\<exists>ds. set ds \<subseteq> {k} \<and>
        map fst (deref l s1) = filter (\<lambda>x. x \<notin> set ds) (map fst (deref l s))"
      by blast
    with Cons.prems(1) e show ?thesis by simp
  next
    case False
    with 1 have "call_action H f k s = Some s1" by simp
    from call_action_shape [OF Cons.prems(1) this] have
      a: "scanning s1" "iterating_roots s1 = iterating_roots s"
        "\<forall>l. map fst (deref l s1) = map fst (deref l s)"
      by simp_all
    have "set [] \<subseteq> {k} \<and>
        map fst (deref l s1) = filter (\<lambda>x. x \<notin> set []) (map fst (deref l s))"
      using a(3) by simp
    then have "\<exists>ds. set ds \<subseteq> {k} \<and>
        map fst (deref l s1) = filter (\<lambda>x. x \<notin> set ds) (map fst (deref l s))"
      by blast
    with a show ?thesis by simp
  qed
  then obtain ds1 where Q: "set ds1 \<subseteq> {k}"
    "map fst (deref l s1) = filter (\<lambda>x. x \<notin> set ds1) (map fst (deref l s))"
    by blast
  from s1 have sc: "scanning s1" by simp
  from Cons.IH [OF sc 2] obtain ds2 where
    ih: "scanning s'" "iterating_roots s' = iterating_roots s1"
      "\<forall>l'. l' \<noteq> l \<longrightarrow> map fst (deref l' s') = map fst (deref l' s1)"
      "set ds2 \<subseteq> set ks"
      "map fst (deref l s') = filter (\<lambda>x. x \<notin> set ds2) (map fst (deref l s1))"
    by blast
  have "map fst (deref l s') = filter (\<lambda>x. x \<notin> set (ds1 @ ds2)) (map fst (deref l s))"
    using ih(5) Q(2) by simp
  moreover have "set (ds1 @ ds2) \<subseteq> set (k # ks)"
    using Q(1) ih(4) by auto
  ultimately have "\<exists>ds. set ds \<subseteq> set (k # ks) \<and>
      map fst (deref l s') = filter (\<lambda>x. x \<notin> set ds) (map fst (deref l s))"
    by blast
  with ih s1 show ?case by simp
qed

lemma foreach_cell_keeps_key:
  assumes "scanning s" and "foreach_cell H f l ks s = Some s'"
    and "k \<notin> set ks" and "k \<in> keys (deref l s)"
  shows "k \<in> keys (deref l s')"
proof -
  from foreach_cell_shape [OF assms(1,2)] obtain ds where
    "set ds \<subseteq> set ks"
    "map fst (deref l s') = filter (\<lambda>x. x \<notin> set ds) (map fst (deref l s))"
    by blast
  with assms(3,4) have "k \<in> set (map fst (deref l s'))"
    by (auto simp: keys_def)
  then show ?thesis by (simp add: keys_def)
qed

lemma foreach_cell_calls:
  assumes "scanning s" and "distinct ks" and "foreach_cell H f l ks s = Some s'"
    and "(v, A) \<in> set (scanned s')"
  shows "(v, A) \<in> set (scanned s) \<or> (A \<in> set ks \<and> A \<in> keys (deref l s'))"
  using assms
proof (induction ks arbitrary: s)
  case Nil
  then show ?case by simp
next
  case (Cons k ks)
  from Cons.prems(3) obtain d where d: "map_of (deref l s) k = Some d"
    by (auto split: option.splits)
  then have kin: "k \<in> keys (deref l s)"
    using map_of_None_keys [of "deref l s" k] by auto
  let ?next = "if d = ROOT_DELETED
     then Some (assign l (caml_skiplist_remove (deref l s) k) s)
     else call_action H f k s"
  from Cons.prems(3) d obtain s1 where
    1: "?next = Some s1" and 2: "foreach_cell H f l ks s1 = Some s'"
    by (auto split: bind_splits)
  from Cons.prems(2) have dk: "distinct ks" "k \<notin> set ks" by simp_all
  show ?case
  proof (cases "d = ROOT_DELETED")
    case True
    with 1 have e: "s1 = assign l (caml_skiplist_remove (deref l s) k) s" by simp
    with Cons.prems(1) have "scanning s1" by simp
    from Cons.IH [OF this dk(1) 2 Cons.prems(4)] e show ?thesis by auto
  next
    case False
    with 1 have c: "call_action H f k s = Some s1" by simp
    from call_action_shape [OF Cons.prems(1) c] have
      a: "scanning s1" "scanned s1 = scanned s @ [(slot s k, k)]"
        "\<forall>l. map fst (deref l s1) = map fst (deref l s)"
      by simp_all
    from a(3) kin have "k \<in> keys (deref l s1)"
      by (metis keys_def list.set_map)
    from foreach_cell_keeps_key [OF a(1) 2 dk(2) this] have k': "k \<in> keys (deref l s')" .
    from Cons.IH [OF a(1) dk(1) 2 Cons.prems(4)] a(2) k' show ?thesis by auto
  qed
qed

subsection \<open>Scanning actions that only store\<close>

lemma run_steps_stores:
  "\<forall>c \<in> set cs. is_store c \<Longrightarrow> \<exists>m. run_steps H cs s = Some (s\<lparr>slot := m\<rparr>)"
proof (induction cs arbitrary: s)
  case Nil
  have "s = s\<lparr>slot := slot s\<rparr>" by simp
  then show ?case by (metis run_steps.simps(1))
next
  case (Cons c cs)
  then obtain r v where c: "c = Store r v"
    by (cases c) simp_all
  from Cons.prems have "\<forall>c \<in> set cs. is_store c" by simp
  from Cons.IH [OF this, of "s\<lparr>slot := (slot s)(r := v)\<rparr>"] c show ?case
    by auto
qed

lemma call_action_stores:
  assumes "stores_only f"
  shows "\<exists>m. call_action H f k s =
     Some (s\<lparr>scanned := scanned s @ [(slot s k, k)], slot := m\<rparr>)"
proof -
  from assms have "\<forall>c \<in> set (f (slot s k) k). is_store c"
    by (simp add: stores_only_def)
  from run_steps_stores [OF this] show ?thesis
    by (simp add: call_action_def)
qed

lemma visits_assign [simp]: "visits A (assign l sk s) = visits A s"
  by (simp add: visits_def)

lemma foreach_cell_stores:
  assumes "stores_only f" and "distinct ks" and "set ks \<subseteq> keys (deref l s)"
  shows "\<exists>s'. foreach_cell H f l ks s = Some s' \<and>
     (\<forall>l'. l' \<noteq> l \<longrightarrow> deref l' s' = deref l' s) \<and>
     (\<forall>j. map_of (deref l s') j =
        (if j \<in> set ks \<and> map_of (deref l s) j = Some ROOT_DELETED then None
         else map_of (deref l s) j)) \<and>
     visits A s' = visits A s + (if A \<in> set ks \<and> present (deref l s) A then 1 else 0)"
  using assms(2,3)
proof (induction ks arbitrary: s)
  case Nil
  then show ?case by simp
next
  case (Cons k ks)
  from Cons.prems have dk: "distinct ks" "k \<notin> set ks" and kin: "k \<in> keys (deref l s)"
    and sub: "set ks \<subseteq> keys (deref l s)"
    by simp_all
  from kin obtain d where d: "map_of (deref l s) k = Some d"
    using map_of_None_keys [of "deref l s" k] by auto
  show ?case
  proof (cases "d = ROOT_DELETED")
    case True
    let ?s1 = "assign l (caml_skiplist_remove (deref l s) k) s"
    have "set ks \<subseteq> keys (deref l ?s1)"
      using sub dk(2) by (auto simp: keys_remove)
    from Cons.IH [OF dk(1) this] obtain s' where
      ih: "foreach_cell H f l ks ?s1 = Some s'"
        "\<forall>l'. l' \<noteq> l \<longrightarrow> deref l' s' = deref l' ?s1"
        "\<forall>j. map_of (deref l s') j =
          (if j \<in> set ks \<and> map_of (deref l ?s1) j = Some ROOT_DELETED then None
           else map_of (deref l ?s1) j)"
        "visits A s' = visits A ?s1 +
          (if A \<in> set ks \<and> present (deref l ?s1) A then 1 else 0)"
      by blast
    have 1: "foreach_cell H f l (k # ks) s = Some s'"
      using d True ih(1) by simp
    have 2: "\<forall>l'. l' \<noteq> l \<longrightarrow> deref l' s' = deref l' s"
      using ih(2) by simp
    have 3: "\<forall>j. map_of (deref l s') j =
        (if j \<in> set (k # ks) \<and> map_of (deref l s) j = Some ROOT_DELETED then None
         else map_of (deref l s) j)"
      using ih(3) d True dk(2) by (simp add: map_of_remove)
    have "\<not> present (deref l s) k"
      using d True by (simp add: present_def)
    then have 4: "visits A s' = visits A s +
        (if A \<in> set (k # ks) \<and> present (deref l s) A then 1 else 0)"
      using ih(4) dk(2) by (auto simp: present_remove)
    from 1 2 3 4 show ?thesis by blast
  next
    case False
    from call_action_stores [OF assms(1), of H k s] obtain m where
      c: "call_action H f k s =
        Some (s\<lparr>scanned := scanned s @ [(slot s k, k)], slot := m\<rparr>)"
      by blast
    let ?s1 = "s\<lparr>scanned := scanned s @ [(slot s k, k)], slot := m\<rparr>"
    have "set ks \<subseteq> keys (deref l ?s1)"
      using sub by simp
    from Cons.IH [OF dk(1) this] obtain s' where
      ih: "foreach_cell H f l ks ?s1 = Some s'"
        "\<forall>l'. l' \<noteq> l \<longrightarrow> deref l' s' = deref l' ?s1"
        "\<forall>j. map_of (deref l s') j =
          (if j \<in> set ks \<and> map_of (deref l ?s1) j = Some ROOT_DELETED then None
           else map_of (deref l ?s1) j)"
        "visits A s' = visits A ?s1 +
          (if A \<in> set ks \<and> present (deref l ?s1) A then 1 else 0)"
      by blast
    have 1: "foreach_cell H f l (k # ks) s = Some s'"
      using d False c ih(1) by simp
    have 2: "\<forall>l'. l' \<noteq> l \<longrightarrow> deref l' s' = deref l' s"
      using ih(2) by simp
    have 3: "\<forall>j. map_of (deref l s') j =
        (if j \<in> set (k # ks) \<and> map_of (deref l s) j = Some ROOT_DELETED then None
         else map_of (deref l s) j)"
      using ih(3) d False by simp
    have "present (deref l s) k"
      using d False by (simp add: present_def)
    moreover have "visits A ?s1 = visits A s + (if A = k then 1 else 0)"
      by (simp add: visits_def)
    ultimately have 4: "visits A s' = visits A s +
        (if A \<in> set (k # ks) \<and> present (deref l s) A then 1 else 0)"
      using ih(4) dk(2) by auto
    from 1 2 3 4 show ?thesis by blast
  qed
qed

lemma ascending_filter_keys:
  "ascending sk \<Longrightarrow> map fst sk' = filter P (map fst sk) \<Longrightarrow> ascending sk'"
  by (simp add: ascending_def sorted_wrt_filter)

lemma ascending_same_keys: "ascending sk \<Longrightarrow> map fst sk' = map fst sk \<Longrightarrow> ascending sk'"
  by (simp add: ascending_def)

lemma lists_ascending_deref: "lists_ascending s = (\<forall>l. ascending (deref l s))"
proof
  assume a: "lists_ascending s"
  have "ascending (deref l s)" for l
    using a by (cases l) (simp_all add: lists_ascending_def)
  then show "\<forall>l. ascending (deref l s)" by simp
next
  assume a: "\<forall>l. ascending (deref l s)"
  from a [rule_format, of Global_roots] a [rule_format, of Global_roots_young]
    a [rule_format, of Global_roots_old]
  show "lists_ascending s" by (simp add: lists_ascending_def)
qed

lemma iterate_shape:
  assumes "scanning s" and "caml_iterate_global_roots H f l s = Some s'"
  shows "scanning s' \<and> iterating_roots s' = iterating_roots s \<and>
     (\<forall>l'. l' \<noteq> l \<longrightarrow> map fst (deref l' s') = map fst (deref l' s)) \<and>
     (\<exists>ds. map fst (deref l s') = filter (\<lambda>x. x \<notin> set ds) (map fst (deref l s)))"
proof -
  from assms have "foreach_cell H f l (map fst (deref l s)) s = Some s'"
    by (simp add: caml_iterate_global_roots_def split: if_splits)
  from foreach_cell_shape [OF assms(1) this] show ?thesis by blast
qed

lemma iterate_ascending:
  assumes "scanning s" and "caml_iterate_global_roots H f l s = Some s'"
    and "lists_ascending s"
  shows "lists_ascending s'"
proof -
  from iterate_shape [OF assms(1,2)] obtain ds where
    a: "\<forall>l'. l' \<noteq> l \<longrightarrow> map fst (deref l' s') = map fst (deref l' s)"
    and b: "map fst (deref l s') = filter (\<lambda>x. x \<notin> set ds) (map fst (deref l s))"
    by blast
  have "ascending (deref l' s')" for l'
  proof (cases "l' = l")
    case True
    with assms(3) b show ?thesis
      by (auto simp: lists_ascending_deref intro: ascending_filter_keys)
  next
    case False
    with assms(3) a show ?thesis
      by (auto simp: lists_ascending_deref intro: ascending_same_keys)
  qed
  then show ?thesis by (simp add: lists_ascending_deref)
qed

lemma iterate_keys_subset:
  assumes "scanning s" and "caml_iterate_global_roots H f l s = Some s'"
  shows "keys (deref l' s') \<subseteq> keys (deref l' s)"
proof -
  from iterate_shape [OF assms(1,2)] obtain ds where
    a: "\<forall>l'. l' \<noteq> l \<longrightarrow> map fst (deref l' s') = map fst (deref l' s)"
    and b: "map fst (deref l s') = filter (\<lambda>x. x \<notin> set ds) (map fst (deref l s))"
    by blast
  have "set (map fst (deref l' s')) \<subseteq> set (map fst (deref l' s))"
  proof (cases "l' = l")
    case True
    with b show ?thesis by auto
  next
    case False
    with a show ?thesis by simp
  qed
  then show ?thesis by (simp add: keys_def)
qed

lemma iterate_calls:
  assumes "scanning s" and "ascending (deref l s)"
    and "caml_iterate_global_roots H f l s = Some s'"
    and "(v, A) \<in> set (scanned s')"
  shows "(v, A) \<in> set (scanned s) \<or> (A \<in> keys (deref l s) \<and> A \<in> keys (deref l s'))"
proof -
  from assms(3) have "foreach_cell H f l (map fst (deref l s)) s = Some s'"
    by (simp add: caml_iterate_global_roots_def split: if_splits)
  from foreach_cell_calls [OF assms(1) ascending_distinct [OF assms(2)] this assms(4)]
  show ?thesis by (simp add: keys_def)
qed

lemma iterate_stores:
  assumes "stores_only f" and "scanning s" and "ascending (deref l s)"
  shows "\<exists>s'. caml_iterate_global_roots H f l s = Some s' \<and>
     (\<forall>l'. l' \<noteq> l \<longrightarrow> deref l' s' = deref l' s) \<and>
     (\<forall>j. map_of (deref l s') j =
        (if map_of (deref l s) j = Some ROOT_DELETED then None else map_of (deref l s) j)) \<and>
     visits A s' = visits A s + (if present (deref l s) A then 1 else 0)"
proof -
  have "set (map fst (deref l s)) \<subseteq> keys (deref l s)"
    by (simp add: keys_def)
  from foreach_cell_stores [OF assms(1) ascending_distinct [OF assms(3)] this, of H A]
  obtain s' where
    a: "foreach_cell H f l (map fst (deref l s)) s = Some s'"
      "\<forall>l'. l' \<noteq> l \<longrightarrow> deref l' s' = deref l' s"
      "\<forall>j. map_of (deref l s') j =
        (if j \<in> set (map fst (deref l s)) \<and> map_of (deref l s) j = Some ROOT_DELETED
         then None else map_of (deref l s) j)"
      "visits A s' = visits A s +
        (if A \<in> set (map fst (deref l s)) \<and> present (deref l s) A then 1 else 0)"
    by blast
  have 1: "caml_iterate_global_roots H f l s = Some s'"
    using a(1) assms(2) by (simp add: caml_iterate_global_roots_def scanning_def)
  have k: "map_of (deref l s) j = Some d \<Longrightarrow> j \<in> set (map fst (deref l s))" for j d
    using map_of_None_keys [of "deref l s" j] by (auto simp: keys_def)
  have 3: "\<forall>j. map_of (deref l s') j =
      (if map_of (deref l s) j = Some ROOT_DELETED then None else map_of (deref l s) j)"
    using a(3) k by auto
  have "present (deref l s) A \<Longrightarrow> A \<in> set (map fst (deref l s))"
    using present_keys [of "deref l s" A] by (simp add: keys_def)
  then have 4: "visits A s' = visits A s + (if present (deref l s) A then 1 else 0)"
    using a(4) by auto
  from 1 a(2) 3 4 show ?thesis by blast
qed

lemma present_after_purge:
  assumes "\<forall>j. map_of sk' j = (if map_of sk j = Some ROOT_DELETED then None else map_of sk j)"
  shows "present sk' j = present sk j" and "j \<in> keys sk' \<longleftrightarrow> present sk j"
proof -
  show "present sk' j = present sk j"
    using assms by (simp add: present_def split: option.splits)
  have "j \<in> keys sk' \<longleftrightarrow> map_of sk' j \<noteq> None"
    using map_of_None_keys [of sk' j] by simp
  also have "\<dots> \<longleftrightarrow> present sk j"
    using assms by (auto simp: present_def split: option.splits)
  finally show "j \<in> keys sk' \<longleftrightarrow> present sk j" .
qed

lemma iterate_stores_full:
  assumes "stores_only f" and "scanning s" and "lists_ascending s"
  shows "\<exists>s'. caml_iterate_global_roots H f l s = Some s' \<and>
     scanning s' \<and> iterating_roots s' = iterating_roots s \<and> lists_ascending s' \<and>
     (\<forall>l'. l' \<noteq> l \<longrightarrow> deref l' s' = deref l' s) \<and>
     (\<forall>j. present (deref l s') j = present (deref l s) j) \<and>
     (\<forall>j. j \<in> keys (deref l s') \<longleftrightarrow> present (deref l s) j) \<and>
     visits A s' = visits A s + (if present (deref l s) A then 1 else 0)"
proof -
  from assms(3) have "ascending (deref l s)"
    by (simp add: lists_ascending_deref)
  from iterate_stores [OF assms(1,2) this, of H A] obtain s' where
    a: "caml_iterate_global_roots H f l s = Some s'"
      "\<forall>l'. l' \<noteq> l \<longrightarrow> deref l' s' = deref l' s"
      "\<forall>j. map_of (deref l s') j =
        (if map_of (deref l s) j = Some ROOT_DELETED then None else map_of (deref l s) j)"
      "visits A s' = visits A s + (if present (deref l s) A then 1 else 0)"
    by blast
  from iterate_shape [OF assms(2) a(1)] have
    b: "scanning s'" "iterating_roots s' = iterating_roots s"
    by simp_all
  from iterate_ascending [OF assms(2) a(1) assms(3)] have c: "lists_ascending s'" .
  from present_after_purge [OF a(3)] have
    d: "\<forall>j. present (deref l s') j = present (deref l s) j"
      "\<forall>j. j \<in> keys (deref l s') \<longleftrightarrow> present (deref l s) j"
    by simp_all
  from a(1,2,4) b c d show ?thesis by blast
qed

lemma begin_scan:
  assumes "idle s"
  shows "caml_plat_lock_blocking s = Some (s\<lparr>roots_mutex := True\<rparr>)"
    and "scanning (s\<lparr>roots_mutex := True, iterating_roots := 1\<rparr>)"
  using assms by (simp_all add: idle_def caml_plat_lock_blocking_def scanning_def)

lemma lists_ascending_fields [simp]:
  "lists_ascending (s\<lparr>roots_mutex := b\<rparr>) = lists_ascending s"
  "lists_ascending (s\<lparr>iterating_roots := i\<rparr>) = lists_ascending s"
  "lists_ascending (s\<lparr>slot := m\<rparr>) = lists_ascending s"
  "lists_ascending (s\<lparr>scanned := x\<rparr>) = lists_ascending s"
  by (simp_all add: lists_ascending_def)

lemma visits_fields [simp]:
  "visits A (s\<lparr>roots_mutex := b\<rparr>) = visits A s"
  "visits A (s\<lparr>iterating_roots := i\<rparr>) = visits A s"
  "visits A (s\<lparr>slot := m\<rparr>) = visits A s"
  by (simp_all add: visits_def)

lemma scan_global_roots_stores:
  assumes "stores_only g" and "idle s" and "lists_ascending s"
  shows "\<exists>s'. caml_scan_global_roots H g s = Some s' \<and> idle s' \<and> lists_ascending s' \<and>
     (\<forall>l j. present (deref l s') j = present (deref l s) j) \<and>
     visits A s' = visits A s +
       (if present (caml_global_roots s) A then 1 else 0) +
       (if present (caml_global_roots_young s) A then 1 else 0) +
       (if present (caml_global_roots_old s) A then 1 else 0)"
proof -
  let ?s1 = "s\<lparr>roots_mutex := True, iterating_roots := 1\<rparr>"
  from begin_scan [OF assms(2)] have
    lock: "caml_plat_lock_blocking s = Some (s\<lparr>roots_mutex := True\<rparr>)" and sc1: "scanning ?s1"
    by simp_all
  from assms(2) have it: "iterating_roots s = 0" by (simp add: idle_def)
  have asc1: "lists_ascending ?s1" using assms(3) by simp
  from iterate_stores_full [OF assms(1) sc1 asc1, of H Global_roots A] obtain s2 where
    2: "caml_iterate_global_roots H g Global_roots ?s1 = Some s2"
      "scanning s2" "iterating_roots s2 = 1" "lists_ascending s2"
      "\<forall>l'. l' \<noteq> Global_roots \<longrightarrow> deref l' s2 = deref l' ?s1"
      "\<forall>j. present (deref Global_roots s2) j = present (deref Global_roots ?s1) j"
      "visits A s2 = visits A ?s1 + (if present (deref Global_roots ?s1) A then 1 else 0)"
    by auto
  from iterate_stores_full [OF assms(1) 2(2) 2(4), of H Global_roots_young A] obtain s3 where
    3: "caml_iterate_global_roots H g Global_roots_young s2 = Some s3"
      "scanning s3" "iterating_roots s3 = 1" "lists_ascending s3"
      "\<forall>l'. l' \<noteq> Global_roots_young \<longrightarrow> deref l' s3 = deref l' s2"
      "\<forall>j. present (deref Global_roots_young s3) j = present (deref Global_roots_young s2) j"
      "visits A s3 = visits A s2 + (if present (deref Global_roots_young s2) A then 1 else 0)"
    using 2(3) by auto
  from iterate_stores_full [OF assms(1) 3(2) 3(4), of H Global_roots_old A] obtain s4 where
    4: "caml_iterate_global_roots H g Global_roots_old s3 = Some s4"
      "scanning s4" "iterating_roots s4 = 1" "lists_ascending s4"
      "\<forall>l'. l' \<noteq> Global_roots_old \<longrightarrow> deref l' s4 = deref l' s3"
      "\<forall>j. present (deref Global_roots_old s4) j = present (deref Global_roots_old s3) j"
      "visits A s4 = visits A s3 + (if present (deref Global_roots_old s3) A then 1 else 0)"
    using 3(3) by auto
  let ?s' = "caml_plat_unlock (s4\<lparr>iterating_roots := iterating_roots s4 - 1\<rparr>)"
  have r: "caml_scan_global_roots H g s = Some ?s'"
    using lock it 2(1) 3(1) 4(1) by (simp add: caml_scan_global_roots_def)
  have i: "idle ?s'"
    using 4(3) by (simp add: idle_def caml_plat_unlock_def)
  have a: "lists_ascending ?s'"
    using 4(4) by (simp add: caml_plat_unlock_def)
  have g2: "deref Global_roots_young s2 = caml_global_roots_young s"
    "deref Global_roots_old s2 = caml_global_roots_old s"
    using 2(5) [rule_format, of Global_roots_young] 2(5) [rule_format, of Global_roots_old]
    by simp_all
  have g3: "deref Global_roots s3 = deref Global_roots s2"
    "deref Global_roots_old s3 = caml_global_roots_old s"
    using 3(5) [rule_format, of Global_roots] 3(5) [rule_format, of Global_roots_old] g2
    by simp_all
  have g4: "deref Global_roots s4 = deref Global_roots s2"
    "deref Global_roots_young s4 = deref Global_roots_young s3"
    using 4(5) [rule_format, of Global_roots] 4(5) [rule_format, of Global_roots_young] g3
    by simp_all
  have p: "present (deref l ?s') j = present (deref l s) j" for l j
  proof (cases l)
    case Global_roots
    then show ?thesis using g4(1) 2(6) by (simp add: caml_plat_unlock_def)
  next
    case Global_roots_young
    then show ?thesis using g4(2) 3(6) g2(1) by (simp add: caml_plat_unlock_def)
  next
    case Global_roots_old
    then show ?thesis using 4(6) g3(2) by (simp add: caml_plat_unlock_def)
  qed
  have v: "visits A ?s' = visits A s +
       (if present (caml_global_roots s) A then 1 else 0) +
       (if present (caml_global_roots_young s) A then 1 else 0) +
       (if present (caml_global_roots_old s) A then 1 else 0)"
    using 2(7) 3(7) 4(7) g2 g3 by (simp add: caml_plat_unlock_def)
  from r i a p v show ?thesis by blast
qed

lemma present_move:
  "present (move_young_cells young old) j \<longleftrightarrow> j \<in> keys young \<or> present old j"
  by (simp add: present_def map_of_move ROOT_DELETED_def)

lemma scan_global_young_roots_stores:
  assumes "stores_only f" and "idle s" and "lists_ascending s"
  shows "\<exists>s'. caml_scan_global_young_roots H f s = Some s' \<and> idle s' \<and>
     lists_ascending s' \<and> caml_global_roots_young s' = [] \<and>
     (\<forall>j. present (caml_global_roots s') j = present (caml_global_roots s) j) \<and>
     (\<forall>j. present (caml_global_roots_old s') j \<longleftrightarrow>
        present (caml_global_roots_young s) j \<or> present (caml_global_roots_old s) j)"
proof -
  let ?s1 = "s\<lparr>roots_mutex := True, iterating_roots := 1\<rparr>"
  from begin_scan [OF assms(2)] have
    lock: "caml_plat_lock_blocking s = Some (s\<lparr>roots_mutex := True\<rparr>)" and sc1: "scanning ?s1"
    by simp_all
  from assms(2) have it: "iterating_roots s = 0" by (simp add: idle_def)
  have asc1: "lists_ascending ?s1" using assms(3) by simp
  from iterate_stores_full [OF assms(1) sc1 asc1, of H Global_roots 0] obtain s2 where
    2: "caml_iterate_global_roots H f Global_roots ?s1 = Some s2"
      "scanning s2" "iterating_roots s2 = 1" "lists_ascending s2"
      "\<forall>l'. l' \<noteq> Global_roots \<longrightarrow> deref l' s2 = deref l' ?s1"
      "\<forall>j. present (deref Global_roots s2) j = present (deref Global_roots ?s1) j"
    by auto
  from iterate_stores_full [OF assms(1) 2(2) 2(4), of H Global_roots_young 0] obtain s3 where
    3: "caml_iterate_global_roots H f Global_roots_young s2 = Some s3"
      "scanning s3" "iterating_roots s3 = 1" "lists_ascending s3"
      "\<forall>l'. l' \<noteq> Global_roots_young \<longrightarrow> deref l' s3 = deref l' s2"
      "\<forall>j. j \<in> keys (deref Global_roots_young s3) \<longleftrightarrow> present (deref Global_roots_young s2) j"
    using 2(3) by auto
  let ?s4 = "move_young_to_old s3"
  let ?s' = "caml_plat_unlock (?s4\<lparr>iterating_roots := iterating_roots ?s4 - 1\<rparr>)"
  have r: "caml_scan_global_young_roots H f s = Some ?s'"
    using lock it 2(1) 3(1) by (simp add: caml_scan_global_young_roots_def Let_def)
  have i: "idle ?s'"
    using 3(3) by (simp add: idle_def caml_plat_unlock_def move_young_to_old_def)
  have a: "lists_ascending ?s'"
    using 3(4)
    by (simp add: caml_plat_unlock_def move_young_to_old_def lists_ascending_def
        caml_skiplist_empty_def ascending_move) (simp add: ascending_def)
  have y: "caml_global_roots_young ?s' = []"
    by (simp add: caml_plat_unlock_def move_young_to_old_def caml_skiplist_empty_def)
  have g2: "deref Global_roots_young s2 = caml_global_roots_young s"
    "deref Global_roots_old s2 = caml_global_roots_old s"
    using 2(5) [rule_format, of Global_roots_young] 2(5) [rule_format, of Global_roots_old]
    by simp_all
  have g3: "deref Global_roots s3 = deref Global_roots s2"
    "deref Global_roots_old s3 = caml_global_roots_old s"
    using 3(5) [rule_format, of Global_roots] 3(5) [rule_format, of Global_roots_old] g2
    by simp_all
  have g: "present (caml_global_roots ?s') j = present (caml_global_roots s) j" for j
    using g3(1) 2(6) by (simp add: caml_plat_unlock_def move_young_to_old_def)
  have o: "present (caml_global_roots_old ?s') j \<longleftrightarrow>
        present (caml_global_roots_young s) j \<or> present (caml_global_roots_old s) j" for j
    using 3(6) g2(1) g3(2)
    by (simp add: caml_plat_unlock_def move_young_to_old_def present_move)
  from r i a y g o show ?thesis by blast
qed

lemma ascending_state_insert:
  "lists_ascending s \<Longrightarrow>
   lists_ascending (assign l (caml_skiplist_insert (deref l s) r d) s)"
  by (cases l) (simp_all add: lists_ascending_def ascending_insert)

subsection \<open>The minor scan, for any scanning action\<close>

lemma scan_global_young_roots_shape:
  assumes "caml_scan_global_young_roots H f s = Some s'" and "idle s" and "lists_ascending s"
  shows "idle s' \<and> lists_ascending s' \<and> caml_global_roots_young s' = [] \<and>
     (\<forall>v A. (v, A) \<in> set (scanned s') \<longrightarrow> (v, A) \<notin> set (scanned s) \<longrightarrow>
        A \<notin> keys (caml_global_roots s) \<longrightarrow>
        map_of (caml_global_roots_old s') A = Some ROOT_PRESENT) \<and>
     keys (caml_global_roots s') \<subseteq> keys (caml_global_roots s)"
proof -
  let ?s1 = "s\<lparr>roots_mutex := True, iterating_roots := 1\<rparr>"
  from begin_scan [OF assms(2)] have
    lock: "caml_plat_lock_blocking s = Some (s\<lparr>roots_mutex := True\<rparr>)" and sc1: "scanning ?s1"
    by simp_all
  from assms(2) have it: "iterating_roots s = 0" by (simp add: idle_def)
  have asc1: "lists_ascending ?s1" using assms(3) by simp
  from assms(1) lock it obtain s2 s3 where
    2: "caml_iterate_global_roots H f Global_roots ?s1 = Some s2" and
    3: "caml_iterate_global_roots H f Global_roots_young s2 = Some s3" and
    e: "s' = caml_plat_unlock
      ((move_young_to_old s3)\<lparr>iterating_roots := iterating_roots (move_young_to_old s3) - 1\<rparr>)"
    by (auto simp: caml_scan_global_young_roots_def Let_def split: bind_splits)
  from iterate_shape [OF sc1 2] have sh2: "scanning s2" "iterating_roots s2 = 1"
    by simp_all
  from iterate_ascending [OF sc1 2 asc1] have asc2: "lists_ascending s2" .
  from iterate_shape [OF sh2(1) 3] sh2(2) have sh3: "scanning s3" "iterating_roots s3 = 1"
    by simp_all
  from iterate_ascending [OF sh2(1) 3 asc2] have asc3: "lists_ascending s3" .
  have i: "idle s'"
    using e sh3(2) by (simp add: idle_def caml_plat_unlock_def move_young_to_old_def)
  have a: "lists_ascending s'"
    using asc3 e
    by (simp add: caml_plat_unlock_def move_young_to_old_def lists_ascending_def
        caml_skiplist_empty_def ascending_move) (simp add: ascending_def)
  have y: "caml_global_roots_young s' = []"
    using e by (simp add: caml_plat_unlock_def move_young_to_old_def caml_skiplist_empty_def)
  have o: "map_of (caml_global_roots_old s') A = Some ROOT_PRESENT"
    if v: "(v, A) \<in> set (scanned s')" "(v, A) \<notin> set (scanned s)"
      "A \<notin> keys (caml_global_roots s)" for v A
  proof -
    from v(1) e have v3: "(v, A) \<in> set (scanned s3)"
      by (simp add: caml_plat_unlock_def move_young_to_old_def)
    have a1: "ascending (deref Global_roots ?s1)" "ascending (deref Global_roots_young s2)"
      using asc1 asc2 by (simp_all add: lists_ascending_def)
    have "(v, A) \<notin> set (scanned s2)"
      using iterate_calls [OF sc1 a1(1) 2, of v A] v(2,3) by auto
    with iterate_calls [OF sh2(1) a1(2) 3 v3] have "A \<in> keys (caml_global_roots_young s3)"
      by simp
    then show ?thesis
      using e by (simp add: caml_plat_unlock_def move_young_to_old_def map_of_move ROOT_PRESENT_def)
  qed
  have "keys (deref Global_roots s3) \<subseteq> keys (deref Global_roots s2)"
    using sh2(1) 3 by (rule iterate_keys_subset)
  moreover have "keys (deref Global_roots s2) \<subseteq> keys (deref Global_roots ?s1)"
    using sc1 2 by (rule iterate_keys_subset)
  ultimately have k: "keys (caml_global_roots s') \<subseteq> keys (caml_global_roots s)"
    using e by (auto simp: caml_plat_unlock_def move_young_to_old_def)
  from i a y o k show ?thesis by blast
qed

lemma move_young_to_old_marks:
  "(k, d) \<in> set (caml_global_roots_young t) \<Longrightarrow>
   map_of (caml_global_roots_old (move_young_to_old t)) k = Some ROOT_PRESENT"
  by (auto simp: move_young_to_old_def map_of_move ROOT_PRESENT_def keys_def
      intro: rev_image_eqI)

subsection \<open>The live roots of the young list hold blocks\<close>

lemma classify_untracked: "classify_gc_root H v = UNTRACKED \<longleftrightarrow> \<not> Is_block H v"
  by (simp add: classify_gc_root_def)

lemma present_store_data:
  "present (store_data sk k ROOT_DELETED) j \<longleftrightarrow> j \<noteq> k \<and> present sk j"
  by (auto simp: present_def map_of_store_data split: option.splits)

lemma present_insert_iff:
  "present (caml_skiplist_insert sk k ROOT_PRESENT) j \<longleftrightarrow> j = k \<or> present sk j"
  by (simp add: present_def map_of_insert ROOT_PRESENT_def ROOT_DELETED_def)

lemma delete_present:
  assumes "caml_delete_global_root l r s = Some s'"
  shows "slot s' = slot s \<and>
     (\<forall>l' j. present (deref l' s') j \<longleftrightarrow> present (deref l' s) j \<and> \<not> (l' = l \<and> j = r))"
proof (cases "0 < iterating_roots s")
  case True
  from delete_iterating [OF True, of l r] assms
  have "s' = assign l (store_data (deref l s) r ROOT_DELETED) s" by simp
  then show ?thesis by (auto simp: present_store_data)
next
  case False
  show ?thesis
  proof (cases "roots_mutex s")
    case True
    with False assms show ?thesis by (simp add: delete_locked)
  next
    case m: False
    from delete_unlocked [OF False m, of l r] assms
    have "s' = assign l (caml_skiplist_remove (deref l s) r) s" by simp
    then show ?thesis by (auto simp: present_remove)
  qed
qed

lemma insert_present:
  assumes "caml_insert_global_root l r s = Some s'"
  shows "slot s' = slot s \<and>
     (\<forall>l' j. present (deref l' s') j \<longleftrightarrow> present (deref l' s) j \<or> (l' = l \<and> j = r))"
proof (cases "roots_mutex s")
  case True
  with assms show ?thesis by (simp add: insert_locked)
next
  case False
  from insert_unlocked [OF False, of l r] assms
  have "s' = assign l (caml_skiplist_insert (deref l s) r ROOT_PRESENT) s" by simp
  then show ?thesis by (auto simp: present_insert_iff)
qed

lemma delete_young_present:
  assumes "caml_delete_global_root l r s = Some s'"
  shows "slot s' = slot s"
    and "present (caml_global_roots_young s') j \<Longrightarrow> present (caml_global_roots_young s) j"
    and "l = Global_roots_young \<Longrightarrow> \<not> present (caml_global_roots_young s') r"
  using delete_present [OF assms, THEN conjunct2, rule_format, of Global_roots_young]
    delete_present [OF assms, THEN conjunct1]
  by auto

lemma remove_generational_present:
  assumes "caml_remove_generational_global_root H r s = Some s'"
  shows "slot s' = slot s"
    and "present (caml_global_roots_young s') j \<Longrightarrow> present (caml_global_roots_young s) j"
    and "classify_gc_root H (slot s r) \<noteq> UNTRACKED \<Longrightarrow>
         \<not> present (caml_global_roots_young s') r"
proof -
  have "slot s' = slot s \<and>
     (present (caml_global_roots_young s') j \<longrightarrow> present (caml_global_roots_young s) j) \<and>
     (classify_gc_root H (slot s r) \<noteq> UNTRACKED \<longrightarrow> \<not> present (caml_global_roots_young s') r)"
  proof (cases "classify_gc_root H (slot s r)")
    case YOUNG
    with assms have "caml_delete_global_root Global_roots_young r s = Some s'"
      by (simp add: caml_remove_generational_global_root_def)
    from delete_young_present [OF this] show ?thesis by auto
  next
    case OLD
    with assms obtain s1 where
      1: "caml_delete_global_root Global_roots_old r s = Some s1" and
      2: "caml_delete_global_root Global_roots_young r s1 = Some s'"
      by (auto simp: caml_remove_generational_global_root_def split: bind_splits)
    from delete_young_present [OF 1] delete_young_present [OF 2] show ?thesis by auto
  next
    case UNTRACKED
    with assms show ?thesis by (simp add: caml_remove_generational_global_root_def)
  qed
  then show "slot s' = slot s"
    and "present (caml_global_roots_young s') j \<Longrightarrow> present (caml_global_roots_young s) j"
    and "classify_gc_root H (slot s r) \<noteq> UNTRACKED \<Longrightarrow>
         \<not> present (caml_global_roots_young s') r"
    by simp_all
qed

lemma insert_young_present:
  assumes "caml_insert_global_root l r s = Some s'"
  shows "slot s' = slot s"
    and "present (caml_global_roots_young s') j \<Longrightarrow>
         present (caml_global_roots_young s) j \<or> (l = Global_roots_young \<and> j = r)"
  using insert_present [OF assms, THEN conjunct2, rule_format, of Global_roots_young]
    insert_present [OF assms, THEN conjunct1]
  by auto

lemma young_blocksI:
  assumes "young_roots_hold_blocks H s"
    and "\<And>j. present (caml_global_roots_young s') j \<Longrightarrow>
           (present (caml_global_roots_young s) j \<and> slot s' j = slot s j) \<or>
           classify_gc_root H (slot s' j) \<noteq> UNTRACKED"
  shows "young_roots_hold_blocks H s'"
  using assms unfolding young_roots_hold_blocks_def by metis

lemma register_generational_young_blocks:
  assumes "young_roots_hold_blocks H s"
    and "caml_register_generational_global_root H r s = Some s'"
  shows "young_roots_hold_blocks H s'"
proof (cases "classify_gc_root H (slot s r)")
  case YOUNG
  with assms(2) have i: "caml_insert_global_root Global_roots_young r s = Some s'"
    by (simp add: caml_register_generational_global_root_def)
  show ?thesis
  proof (rule young_blocksI [OF assms(1)])
    fix j assume "present (caml_global_roots_young s') j"
    from insert_young_present(2) [OF i this] insert_young_present(1) [OF i] YOUNG
    show "(present (caml_global_roots_young s) j \<and> slot s' j = slot s j) \<or>
           classify_gc_root H (slot s' j) \<noteq> UNTRACKED"
      by auto
  qed
next
  case OLD
  with assms(2) have i: "caml_insert_global_root Global_roots_old r s = Some s'"
    by (simp add: caml_register_generational_global_root_def)
  show ?thesis
  proof (rule young_blocksI [OF assms(1)])
    fix j assume "present (caml_global_roots_young s') j"
    from insert_young_present(2) [OF i this] insert_young_present(1) [OF i]
    show "(present (caml_global_roots_young s) j \<and> slot s' j = slot s j) \<or>
           classify_gc_root H (slot s' j) \<noteq> UNTRACKED"
      by auto
  qed
next
  case UNTRACKED
  with assms show ?thesis by (simp add: caml_register_generational_global_root_def)
qed

lemma remove_generational_young_blocks:
  assumes "young_roots_hold_blocks H s"
    and "caml_remove_generational_global_root H r s = Some s'"
  shows "young_roots_hold_blocks H s'"
proof (rule young_blocksI [OF assms(1)])
  fix j assume "present (caml_global_roots_young s') j"
  from remove_generational_present(2) [OF assms(2) this]
    remove_generational_present(1) [OF assms(2)]
  show "(present (caml_global_roots_young s) j \<and> slot s' j = slot s j) \<or>
         classify_gc_root H (slot s' j) \<noteq> UNTRACKED"
    by simp
qed

lemma modify_generational_young_blocks:
  assumes "young_roots_hold_blocks H s"
    and "caml_modify_generational_global_root H r v s = Some s'"
  shows "young_roots_hold_blocks H s'"
proof -
  from assms(2) obtain s1 where
    1: "(case classify_gc_root H v of
          YOUNG \<Rightarrow>
            (let c = classify_gc_root H (slot s r) in
             Option.bind
               (if c = OLD then caml_delete_global_root Global_roots_old r s else Some s)
               (\<lambda>s1. if c \<noteq> YOUNG then caml_insert_global_root Global_roots_young r s1
                     else Some s1))
        | OLD \<Rightarrow>
            (if classify_gc_root H (slot s r) = UNTRACKED
             then caml_insert_global_root Global_roots_old r s
             else Some s)
        | UNTRACKED \<Rightarrow> caml_remove_generational_global_root H r s) = Some s1"
    and 2: "s' = s1\<lparr>slot := (slot s1)(r := v)\<rparr>"
    by (auto simp: caml_modify_generational_global_root_def split: bind_splits)
  show ?thesis
  proof (cases "classify_gc_root H v = UNTRACKED")
    case True
    with 1 have rm: "caml_remove_generational_global_root H r s = Some s1" by simp
    have nr: "\<not> present (caml_global_roots_young s1) r"
    proof (cases "classify_gc_root H (slot s r) = UNTRACKED")
      case True
      with assms(1) have "\<not> present (caml_global_roots_young s) r"
        by (auto simp: young_roots_hold_blocks_def)
      with remove_generational_present(2) [OF rm] show ?thesis by blast
    next
      case False
      with remove_generational_present(3) [OF rm] show ?thesis by simp
    qed
    show ?thesis
    proof (rule young_blocksI [OF assms(1)])
      fix j assume "present (caml_global_roots_young s') j"
      then have p: "present (caml_global_roots_young s1) j" using 2 by simp
      with nr have "j \<noteq> r" by auto
      with remove_generational_present(2) [OF rm p] remove_generational_present(1) [OF rm] 2
      show "(present (caml_global_roots_young s) j \<and> slot s' j = slot s j) \<or>
           classify_gc_root H (slot s' j) \<noteq> UNTRACKED"
        by simp
    qed
  next
    case False
    have fr: "slot s1 = slot s \<and>
        (\<forall>j. present (caml_global_roots_young s1) j \<longrightarrow>
           j = r \<or> present (caml_global_roots_young s) j)"
    proof (cases "classify_gc_root H v")
      case YOUNG
      let ?c = "classify_gc_root H (slot s r)"
      from 1 YOUNG obtain s0 where
        a: "(if ?c = OLD then caml_delete_global_root Global_roots_old r s else Some s) = Some s0"
        and b: "(if ?c \<noteq> YOUNG then caml_insert_global_root Global_roots_young r s0
                 else Some s0) = Some s1"
        by (auto simp: Let_def split: bind_splits)
      have a': "slot s0 = slot s \<and>
          (\<forall>j. present (caml_global_roots_young s0) j \<longrightarrow> present (caml_global_roots_young s) j)"
      proof (cases "?c = OLD")
        case True
        with a have "caml_delete_global_root Global_roots_old r s = Some s0" by simp
        from delete_young_present(1,2) [OF this] show ?thesis by blast
      next
        case False
        with a show ?thesis by simp
      qed
      have b': "slot s1 = slot s0 \<and>
          (\<forall>j. present (caml_global_roots_young s1) j \<longrightarrow>
             j = r \<or> present (caml_global_roots_young s0) j)"
      proof (cases "?c \<noteq> YOUNG")
        case True
        with b have "caml_insert_global_root Global_roots_young r s0 = Some s1" by simp
        from insert_young_present [OF this] show ?thesis by blast
      next
        case False
        with b show ?thesis by simp
      qed
      from a' b' show ?thesis by auto
    next
      case OLD
      show ?thesis
      proof (cases "classify_gc_root H (slot s r) = UNTRACKED")
        case True
        with 1 OLD have "caml_insert_global_root Global_roots_old r s = Some s1" by simp
        from insert_young_present [OF this] show ?thesis by blast
      next
        case False
        with 1 OLD show ?thesis by simp
      qed
    next
      case UNTRACKED
      with False show ?thesis by simp
    qed
    show ?thesis
    proof (rule young_blocksI [OF assms(1)])
      fix j assume "present (caml_global_roots_young s') j"
      then have p: "present (caml_global_roots_young s1) j" using 2 by simp
      show "(present (caml_global_roots_young s) j \<and> slot s' j = slot s j) \<or>
           classify_gc_root H (slot s' j) \<noteq> UNTRACKED"
      proof (cases "j = r")
        case True
        with 2 False show ?thesis by simp
      next
        case False
        with fr p 2 show ?thesis by auto
      qed
    qed
  qed
qed

lemma run_step_young_blocks:
  assumes "young_roots_hold_blocks H s" and "stores_block H c"
    and "run_step H c s = Some s'"
  shows "young_roots_hold_blocks H s'"
proof (cases c)
  case (Store r v)
  with assms(2,3) have e: "s' = s\<lparr>slot := (slot s)(r := v)\<rparr>" and b: "Is_block H v"
    by auto
  show ?thesis
  proof (rule young_blocksI [OF assms(1)])
    fix j assume "present (caml_global_roots_young s') j"
    with e b show "(present (caml_global_roots_young s) j \<and> slot s' j = slot s j) \<or>
           classify_gc_root H (slot s' j) \<noteq> UNTRACKED"
      by (auto simp: classify_untracked)
  qed
next
  case (Register_global_root r)
  with assms(3) have i: "caml_insert_global_root Global_roots r s = Some s'"
    by (simp add: caml_register_global_root_def)
  show ?thesis
  proof (rule young_blocksI [OF assms(1)])
    fix j assume "present (caml_global_roots_young s') j"
    from insert_young_present(2) [OF i this] insert_young_present(1) [OF i]
    show "(present (caml_global_roots_young s) j \<and> slot s' j = slot s j) \<or>
           classify_gc_root H (slot s' j) \<noteq> UNTRACKED"
      by auto
  qed
next
  case (Remove_global_root r)
  with assms(3) have d: "caml_delete_global_root Global_roots r s = Some s'"
    by (simp add: caml_remove_global_root_def)
  show ?thesis
  proof (rule young_blocksI [OF assms(1)])
    fix j assume "present (caml_global_roots_young s') j"
    from delete_young_present(2) [OF d this] delete_young_present(1) [OF d]
    show "(present (caml_global_roots_young s) j \<and> slot s' j = slot s j) \<or>
           classify_gc_root H (slot s' j) \<noteq> UNTRACKED"
      by auto
  qed
next
  case (Register_generational_global_root r)
  with assms show ?thesis by (simp add: register_generational_young_blocks)
next
  case (Remove_generational_global_root r)
  with assms show ?thesis by (simp add: remove_generational_young_blocks)
next
  case (Modify_generational_global_root r v)
  with assms show ?thesis by (simp add: modify_generational_young_blocks)
qed

lemma young_blocks_fields [simp]:
  "young_roots_hold_blocks H (s\<lparr>scanned := x\<rparr>) = young_roots_hold_blocks H s"
  "young_roots_hold_blocks H (s\<lparr>roots_mutex := b\<rparr>) = young_roots_hold_blocks H s"
  "young_roots_hold_blocks H (s\<lparr>iterating_roots := i\<rparr>) = young_roots_hold_blocks H s"
  by (simp_all add: young_roots_hold_blocks_def)

lemma run_steps_young_blocks:
  "young_roots_hold_blocks H s \<Longrightarrow> \<forall>c \<in> set cs. stores_block H c \<Longrightarrow>
   run_steps H cs s = Some s' \<Longrightarrow> young_roots_hold_blocks H s'"
proof (induction cs arbitrary: s)
  case Nil
  then show ?case by simp
next
  case (Cons c cs)
  from Cons.prems(3) obtain s1 where
    1: "run_step H c s = Some s1" and 2: "run_steps H cs s1 = Some s'"
    by (auto split: bind_splits)
  from Cons.prems(2) have c: "stores_block H c" and cs: "\<forall>c \<in> set cs. stores_block H c"
    by simp_all
  from run_step_young_blocks [OF Cons.prems(1) c 1] have "young_roots_hold_blocks H s1" .
  from Cons.IH [OF this cs 2] show ?case .
qed

lemma call_action_young_blocks:
  assumes "relocating H f" and "young_roots_hold_blocks H s"
    and "call_action H f k s = Some s'"
  shows "young_roots_hold_blocks H s'"
proof -
  from assms(1) have "\<forall>c \<in> set (f (slot s k) k). stores_block H c"
    by (simp add: relocating_def)
  moreover have "young_roots_hold_blocks H (s\<lparr>scanned := scanned s @ [(slot s k, k)]\<rparr>)"
    using assms(2) by simp
  ultimately show ?thesis
    using assms(3) run_steps_young_blocks unfolding call_action_def by blast
qed

lemma unlink_young_blocks:
  assumes "young_roots_hold_blocks H s"
  shows "young_roots_hold_blocks H (assign l (caml_skiplist_remove (deref l s) k) s)"
proof (rule young_blocksI [OF assms])
  fix j
  assume "present (caml_global_roots_young (assign l (caml_skiplist_remove (deref l s) k) s)) j"
  then have "present (caml_global_roots_young s) j"
    by (cases l) (simp_all add: present_remove)
  then show "(present (caml_global_roots_young s) j \<and>
      slot (assign l (caml_skiplist_remove (deref l s) k) s) j = slot s j) \<or>
      classify_gc_root H (slot (assign l (caml_skiplist_remove (deref l s) k) s) j) \<noteq> UNTRACKED"
    by simp
qed

lemma foreach_cell_young_blocks:
  "relocating H f \<Longrightarrow> young_roots_hold_blocks H s \<Longrightarrow>
   foreach_cell H f l ks s = Some s' \<Longrightarrow> young_roots_hold_blocks H s'"
proof (induction ks arbitrary: s)
  case Nil
  then show ?case by simp
next
  case (Cons k ks)
  from Cons.prems(3) obtain d where d: "map_of (deref l s) k = Some d"
    by (auto split: option.splits)
  from Cons.prems(3) d obtain s1 where
    1: "(if d = ROOT_DELETED
         then Some (assign l (caml_skiplist_remove (deref l s) k) s)
         else call_action H f k s) = Some s1"
    and 2: "foreach_cell H f l ks s1 = Some s'"
    by (auto split: bind_splits)
  have "young_roots_hold_blocks H s1"
  proof (cases "d = ROOT_DELETED")
    case True
    with 1 have "s1 = assign l (caml_skiplist_remove (deref l s) k) s" by simp
    with unlink_young_blocks [OF Cons.prems(2)] show ?thesis by simp
  next
    case False
    with 1 have "call_action H f k s = Some s1" by simp
    from call_action_young_blocks [OF Cons.prems(1,2) this] show ?thesis .
  qed
  from Cons.IH [OF Cons.prems(1) this 2] show ?case .
qed

lemma iterate_young_blocks:
  assumes "relocating H f" and "young_roots_hold_blocks H s"
    and "caml_iterate_global_roots H f l s = Some s'"
  shows "young_roots_hold_blocks H s'"
proof -
  from assms(3) have "foreach_cell H f l (map fst (deref l s)) s = Some s'"
    by (simp add: caml_iterate_global_roots_def split: if_splits)
  from foreach_cell_young_blocks [OF assms(1,2) this] show ?thesis .
qed

lemma scan_global_roots_young_blocks:
  assumes "relocating H f" and "young_roots_hold_blocks H s"
    and "caml_scan_global_roots H f s = Some s'"
  shows "young_roots_hold_blocks H s'"
proof -
  from assms(3) obtain s1 s2 s3 s4 where
    l: "caml_plat_lock_blocking s = Some s1" and
    2: "caml_iterate_global_roots H f Global_roots
          (s1\<lparr>iterating_roots := iterating_roots s1 + 1\<rparr>) = Some s2" and
    3: "caml_iterate_global_roots H f Global_roots_young s2 = Some s3" and
    4: "caml_iterate_global_roots H f Global_roots_old s3 = Some s4" and
    e: "s' = caml_plat_unlock (s4\<lparr>iterating_roots := iterating_roots s4 - 1\<rparr>)"
    by (auto simp: caml_scan_global_roots_def split: bind_splits)
  from l have "s1 = s\<lparr>roots_mutex := True\<rparr>"
    by (simp add: caml_plat_lock_blocking_def split: if_splits)
  with assms(2) have "young_roots_hold_blocks H (s1\<lparr>iterating_roots := iterating_roots s1 + 1\<rparr>)"
    by simp
  from iterate_young_blocks [OF assms(1) this 2] have "young_roots_hold_blocks H s2" .
  from iterate_young_blocks [OF assms(1) this 3] have "young_roots_hold_blocks H s3" .
  from iterate_young_blocks [OF assms(1) this 4] have "young_roots_hold_blocks H s4" .
  with e show ?thesis by (simp add: caml_plat_unlock_def)
qed

lemma scan_global_young_roots_empties:
  assumes "caml_scan_global_young_roots H f s = Some s'"
  shows "caml_global_roots_young s' = []"
  using assms
  by (auto simp: caml_scan_global_young_roots_def Let_def caml_plat_unlock_def
      move_young_to_old_def caml_skiplist_empty_def split: bind_splits)

lemma scan_global_young_roots_young_blocks:
  assumes "caml_scan_global_young_roots H f s = Some s'"
  shows "young_roots_hold_blocks H s'"
  using scan_global_young_roots_empties [OF assms]
  by (simp add: young_roots_hold_blocks_def present_def)

lemma run_operation_young_blocks:
  assumes "abides H op" and "young_roots_hold_blocks H s"
    and "run_operation H op s = Some s'"
  shows "young_roots_hold_blocks H s'"
proof (cases op)
  case (Call c)
  with assms show ?thesis by (simp add: run_step_young_blocks)
next
  case (Scan_global_roots f)
  with assms show ?thesis by (simp add: scan_global_roots_young_blocks)
next
  case (Scan_global_young_roots f)
  with assms show ?thesis by (simp add: scan_global_young_roots_young_blocks)
qed

subsection \<open>Operations return to an idle state\<close>

lemma idle_assign [simp]: "idle (assign l sk s) = idle s"
  by (simp add: idle_def)

lemma insert_idle:
  assumes "idle s" and "caml_insert_global_root l r s = Some s'"
  shows "idle s'"
proof -
  from assms(1) have "\<not> roots_mutex s" by (simp add: idle_def)
  from insert_unlocked [OF this, of l r] assms show ?thesis by auto
qed

lemma delete_idle:
  assumes "idle s" and "caml_delete_global_root l r s = Some s'"
  shows "idle s'"
proof -
  from assms(1) have "\<not> 0 < iterating_roots s" "\<not> roots_mutex s" by (simp_all add: idle_def)
  from delete_unlocked [OF this, of l r] assms show ?thesis by auto
qed

lemma remove_generational_idle:
  assumes "idle s" and "caml_remove_generational_global_root H r s = Some s'"
  shows "idle s'"
proof -
  from assms(1) have "0 < iterating_roots s \<or> \<not> roots_mutex s" by (simp add: idle_def)
  from remove_generational_result [OF this, of H r] assms show ?thesis
    by (auto simp: idle_def split: gc_root_class.splits)
qed

lemma modify_generational_idle:
  assumes "idle s" and "caml_modify_generational_global_root H r v s = Some s'"
  shows "idle s'"
proof -
  from assms(2) obtain s1 where
    1: "(case classify_gc_root H v of
          YOUNG \<Rightarrow>
            (let c = classify_gc_root H (slot s r) in
             Option.bind
               (if c = OLD then caml_delete_global_root Global_roots_old r s else Some s)
               (\<lambda>s1. if c \<noteq> YOUNG then caml_insert_global_root Global_roots_young r s1
                     else Some s1))
        | OLD \<Rightarrow>
            (if classify_gc_root H (slot s r) = UNTRACKED
             then caml_insert_global_root Global_roots_old r s
             else Some s)
        | UNTRACKED \<Rightarrow> caml_remove_generational_global_root H r s) = Some s1"
    and 2: "s' = s1\<lparr>slot := (slot s1)(r := v)\<rparr>"
    by (auto simp: caml_modify_generational_global_root_def split: bind_splits)
  have "idle s1"
  proof (cases "classify_gc_root H v")
    case YOUNG
    let ?c = "classify_gc_root H (slot s r)"
    from 1 YOUNG obtain s0 where
      a: "(if ?c = OLD then caml_delete_global_root Global_roots_old r s else Some s) = Some s0"
      and b: "(if ?c \<noteq> YOUNG then caml_insert_global_root Global_roots_young r s0
               else Some s0) = Some s1"
      by (auto simp: Let_def split: bind_splits)
    from a assms(1) have "idle s0"
      by (auto split: if_splits intro: delete_idle)
    with b show ?thesis
      by (auto split: if_splits intro: insert_idle)
  next
    case OLD
    with 1 assms(1) show ?thesis
      by (auto split: if_splits intro: insert_idle)
  next
    case UNTRACKED
    with 1 assms(1) show ?thesis
      by (auto intro: remove_generational_idle)
  qed
  with 2 show ?thesis by (simp add: idle_def)
qed

lemma run_step_idle:
  assumes "idle s" and "run_step H c s = Some s'"
  shows "idle s'"
proof (cases c)
  case (Store r v)
  with assms show ?thesis by (auto simp: idle_def)
next
  case (Register_global_root r)
  with assms show ?thesis
    by (auto simp: caml_register_global_root_def intro: insert_idle)
next
  case (Remove_global_root r)
  with assms show ?thesis
    by (auto simp: caml_remove_global_root_def intro: delete_idle)
next
  case (Register_generational_global_root r)
  with assms show ?thesis
    by (auto simp: caml_register_generational_global_root_def intro: insert_idle
        split: gc_root_class.splits)
next
  case (Remove_generational_global_root r)
  with assms show ?thesis by (auto intro: remove_generational_idle)
next
  case (Modify_generational_global_root r v)
  with assms show ?thesis by (auto intro: modify_generational_idle)
qed

lemma scan_global_roots_idle:
  assumes "idle s" and "caml_scan_global_roots H f s = Some s'"
  shows "idle s'"
proof -
  let ?s1 = "s\<lparr>roots_mutex := True, iterating_roots := 1\<rparr>"
  from begin_scan [OF assms(1)] have
    lock: "caml_plat_lock_blocking s = Some (s\<lparr>roots_mutex := True\<rparr>)" and sc1: "scanning ?s1"
    by simp_all
  from assms(1) have it: "iterating_roots s = 0" by (simp add: idle_def)
  from assms(2) lock it obtain s2 s3 s4 where
    2: "caml_iterate_global_roots H f Global_roots ?s1 = Some s2" and
    3: "caml_iterate_global_roots H f Global_roots_young s2 = Some s3" and
    4: "caml_iterate_global_roots H f Global_roots_old s3 = Some s4" and
    e: "s' = caml_plat_unlock (s4\<lparr>iterating_roots := iterating_roots s4 - 1\<rparr>)"
    by (auto simp: caml_scan_global_roots_def split: bind_splits)
  from iterate_shape [OF sc1 2] have sh2: "scanning s2" "iterating_roots s2 = 1"
    by simp_all
  from iterate_shape [OF sh2(1) 3] sh2(2) have sh3: "scanning s3" "iterating_roots s3 = 1"
    by simp_all
  from iterate_shape [OF sh3(1) 4] sh3(2) have "iterating_roots s4 = 1"
    by simp
  with e show ?thesis by (simp add: idle_def caml_plat_unlock_def)
qed

lemma scan_global_young_roots_idle:
  assumes "idle s" and "caml_scan_global_young_roots H f s = Some s'"
  shows "idle s'"
proof -
  let ?s1 = "s\<lparr>roots_mutex := True, iterating_roots := 1\<rparr>"
  from begin_scan [OF assms(1)] have
    lock: "caml_plat_lock_blocking s = Some (s\<lparr>roots_mutex := True\<rparr>)" and sc1: "scanning ?s1"
    by simp_all
  from assms(1) have it: "iterating_roots s = 0" by (simp add: idle_def)
  from assms(2) lock it obtain s2 s3 where
    2: "caml_iterate_global_roots H f Global_roots ?s1 = Some s2" and
    3: "caml_iterate_global_roots H f Global_roots_young s2 = Some s3" and
    e: "s' = caml_plat_unlock
      ((move_young_to_old s3)\<lparr>iterating_roots := iterating_roots (move_young_to_old s3) - 1\<rparr>)"
    by (auto simp: caml_scan_global_young_roots_def Let_def split: bind_splits)
  from iterate_shape [OF sc1 2] have sh2: "scanning s2" "iterating_roots s2 = 1"
    by simp_all
  from iterate_shape [OF sh2(1) 3] sh2(2) have "iterating_roots s3 = 1"
    by simp
  with e show ?thesis
    by (simp add: idle_def caml_plat_unlock_def move_young_to_old_def)
qed

lemma run_operation_idle:
  assumes "idle s" and "run_operation H op s = Some s'"
  shows "idle s'"
proof (cases op)
  case (Call c)
  with assms show ?thesis by (auto intro: run_step_idle)
next
  case (Scan_global_roots f)
  with assms show ?thesis by (auto intro: scan_global_roots_idle)
next
  case (Scan_global_young_roots f)
  with assms show ?thesis by (auto intro: scan_global_young_roots_idle)
qed

lemma run_operations_invariant:
  "idle s \<Longrightarrow> young_roots_hold_blocks H s \<Longrightarrow> \<forall>op \<in> set ops. abides H op \<Longrightarrow>
   run_operations H ops s = Some s' \<Longrightarrow> idle s' \<and> young_roots_hold_blocks H s'"
proof (induction ops arbitrary: s)
  case Nil
  then show ?case by simp
next
  case (Cons op ops)
  from Cons.prems(4) obtain s1 where
    1: "run_operation H op s = Some s1" and 2: "run_operations H ops s1 = Some s'"
    by (auto split: bind_splits)
  from Cons.prems(3) have a: "abides H op" and as: "\<forall>op \<in> set ops. abides H op"
    by simp_all
  from run_operation_idle [OF Cons.prems(1) 1] have i: "idle s1" .
  from run_operation_young_blocks [OF a Cons.prems(2) 1] have k: "young_roots_hold_blocks H s1" .
  from Cons.IH [OF i k as 2] show ?case .
qed

lemma init_state_invariant: "idle (init_state m) \<and> young_roots_hold_blocks H (init_state m)"
  by (simp add: init_state_def idle_def young_roots_hold_blocks_def present_def
      SKIPLIST_STATIC_INITIALIZER_def)

lemmas action_defs =
  no_action_def relocate_action_def unregister_action_def untrack_action_def
  young_root_redirected_def untracked_in_old_def unregistered_in_old_def
  untracked_left_in_old_def

subsection \<open>Counting the live cells\<close>

lemma remove_insert:
  "caml_skiplist_remove (caml_skiplist_insert sk k d) k = caml_skiplist_remove sk k"
  by (induction sk k d rule: caml_skiplist_insert.induct)
    (auto simp: caml_skiplist_remove_def)

lemma live_cells_remove_dead:
  assumes "ascending sk" and "\<not> present sk k"
  shows "live_cells (caml_skiplist_remove sk k) = live_cells sk"
proof -
  have "snd c = ROOT_DELETED" if "c \<in> set sk" "fst c = k" for c
  proof -
    from that have "(k, snd c) \<in> set sk" by auto
    with ascending_distinct [OF assms(1)] have "map_of sk k = Some (snd c)"
      by (simp add: map_of_is_SomeI)
    with assms(2) show ?thesis by (simp add: present_def)
  qed
  then have "filter (\<lambda>c. snd c \<noteq> ROOT_DELETED) (filter (\<lambda>c. fst c \<noteq> k) sk) =
      filter (\<lambda>c. snd c \<noteq> ROOT_DELETED) sk"
    by (auto intro: filter_cong)
  then show ?thesis
    by (simp add: live_cells_def caml_skiplist_remove_def)
qed

lemma live_cells_remove_live:
  "ascending sk \<Longrightarrow> present sk k \<Longrightarrow>
   live_cells sk = Suc (live_cells (caml_skiplist_remove sk k))"
proof (induction sk)
  case Nil
  then show ?case by (simp add: present_def)
next
  case (Cons c sk)
  from Cons.prems(1) have a: "ascending sk" and lt: "\<forall>x \<in> set sk. fst c < fst x"
    by (simp_all add: ascending_def)
  show ?case
  proof (cases "fst c = k")
    case True
    with Cons.prems(2) have l: "snd c \<noteq> ROOT_DELETED"
      by (cases c) (simp add: present_def)
    from lt True have "k \<notin> keys sk"
      by (auto simp: keys_def)
    then have "caml_skiplist_remove sk k = sk" by (rule remove_absent)
    with True l show ?thesis
      by (simp add: live_cells_def caml_skiplist_remove_def)
  next
    case False
    with Cons.prems(2) have "present sk k"
      by (cases c) (simp add: present_def)
    from Cons.IH [OF a this] False show ?thesis
      by (simp add: live_cells_def caml_skiplist_remove_def)
  qed
qed

subsection \<open>A minor scan whose action unregisters roots returns\<close>

lemma delete_returns:
  "scanning s \<Longrightarrow> \<exists>s'. caml_delete_global_root l r s = Some s'"
  by (simp add: scanning_def delete_iterating)

lemma remove_generational_returns:
  assumes "scanning s"
  shows "\<exists>s'. caml_remove_generational_global_root H r s = Some s'"
proof -
  from assms have "0 < iterating_roots s \<or> \<not> roots_mutex s"
    by (simp add: scanning_def)
  from remove_generational_result [OF this] show ?thesis by blast
qed

lemma run_step_returns:
  assumes "scanning s" and "removes H c"
  shows "\<exists>s'. run_step H c s = Some s'"
proof (cases c)
  case (Store r v)
  then show ?thesis by simp
next
  case (Register_global_root r)
  with assms(2) show ?thesis by simp
next
  case (Remove_global_root r)
  with delete_returns [OF assms(1)] show ?thesis
    by (simp add: caml_remove_global_root_def)
next
  case (Register_generational_global_root r)
  with assms(2) show ?thesis by simp
next
  case (Remove_generational_global_root r)
  with remove_generational_returns [OF assms(1)] show ?thesis by simp
next
  case (Modify_generational_global_root r v)
  with assms(2) have u: "classify_gc_root H v = UNTRACKED" by simp
  from remove_generational_returns [OF assms(1), of H r] obtain s1 where
    "caml_remove_generational_global_root H r s = Some s1" by blast
  with Modify_generational_global_root u show ?thesis
    by (simp add: modify_untracked)
qed

lemma run_steps_returns:
  "scanning s \<Longrightarrow> \<forall>c \<in> set cs. removes H c \<Longrightarrow> \<exists>s'. run_steps H cs s = Some s'"
proof (induction cs arbitrary: s)
  case Nil
  then show ?case by simp
next
  case (Cons c cs)
  from Cons.prems(2) have c: "removes H c" and cs: "\<forall>c \<in> set cs. removes H c"
    by simp_all
  from run_step_returns [OF Cons.prems(1) c] obtain s1 where
    1: "run_step H c s = Some s1" by blast
  from run_step_scanning [OF Cons.prems(1) 1] Cons.prems(1) have "scanning s1"
    by (blast intro: same_cells_scanning)
  from Cons.IH [OF this cs] 1 show ?case by simp
qed

lemma call_action_returns:
  assumes "scanning s" and "unregistering H f"
  shows "\<exists>s'. call_action H f k s = Some s'"
proof -
  have "scanning (s\<lparr>scanned := scanned s @ [(slot s k, k)]\<rparr>)"
    using assms(1) by (simp add: scanning_def)
  moreover from assms(2) have "\<forall>c \<in> set (f (slot s k) k). removes H c"
    by (simp add: unregistering_def)
  ultimately show ?thesis
    unfolding call_action_def by (rule run_steps_returns)
qed

lemma foreach_cell_returns:
  assumes "unregistering H f"
  shows "scanning s \<Longrightarrow> distinct ks \<Longrightarrow> set ks \<subseteq> keys (deref l s) \<Longrightarrow>
     \<exists>s'. foreach_cell H f l ks s = Some s'"
proof (induction ks arbitrary: s)
  case Nil
  then show ?case by simp
next
  case (Cons k ks)
  from Cons.prems(2,3) have dk: "distinct ks" "k \<notin> set ks" and kin: "k \<in> keys (deref l s)"
    and sub: "set ks \<subseteq> keys (deref l s)"
    by simp_all
  from map_of_Some_keys [OF kin] obtain d where d: "map_of (deref l s) k = Some d"
    by blast
  show ?case
  proof (cases "d = ROOT_DELETED")
    case True
    let ?s1 = "assign l (caml_skiplist_remove (deref l s) k) s"
    have "scanning ?s1" using Cons.prems(1) by simp
    moreover have "set ks \<subseteq> keys (deref l ?s1)"
      using sub dk(2) by (auto simp: keys_remove)
    ultimately obtain s' where "foreach_cell H f l ks ?s1 = Some s'"
      using Cons.IH [OF _ dk(1)] by blast
    with d True show ?thesis by simp
  next
    case False
    from call_action_returns [OF Cons.prems(1) assms, of k] obtain s1 where
      c: "call_action H f k s = Some s1" by blast
    from call_action_shape [OF Cons.prems(1) c] have
      a: "scanning s1" "\<forall>l. map fst (deref l s1) = map fst (deref l s)"
      by simp_all
    from a(2) have "keys (deref l s1) = keys (deref l s)"
      by (metis keys_def list.set_map)
    with sub have "set ks \<subseteq> keys (deref l s1)" by simp
    from Cons.IH [OF a(1) dk(1) this] obtain s' where
      "foreach_cell H f l ks s1 = Some s'" by blast
    with d False c show ?thesis by simp
  qed
qed

lemma iterate_returns:
  assumes "unregistering H f" and "scanning s" and "lists_ascending s"
  shows "\<exists>s'. caml_iterate_global_roots H f l s = Some s'"
proof -
  from assms(3) have "distinct (map fst (deref l s))"
    by (simp add: lists_ascending_deref ascending_distinct)
  moreover have "set (map fst (deref l s)) \<subseteq> keys (deref l s)"
    by (simp add: keys_def)
  ultimately obtain s' where "foreach_cell H f l (map fst (deref l s)) s = Some s'"
    using foreach_cell_returns [OF assms(1,2)] by blast
  with assms(2) show ?thesis
    by (simp add: caml_iterate_global_roots_def scanning_def)
qed

lemma scan_global_young_roots_returns:
  assumes "unregistering H f" and "idle s" and "lists_ascending s"
  shows "\<exists>s'. caml_scan_global_young_roots H f s = Some s'"
proof -
  let ?s1 = "s\<lparr>roots_mutex := True, iterating_roots := 1\<rparr>"
  from begin_scan [OF assms(2)] have
    lock: "caml_plat_lock_blocking s = Some (s\<lparr>roots_mutex := True\<rparr>)" and sc1: "scanning ?s1"
    by simp_all
  from assms(2) have it: "iterating_roots s = 0" by (simp add: idle_def)
  have asc1: "lists_ascending ?s1" using assms(3) by simp
  from iterate_returns [OF assms(1) sc1 asc1] obtain s2 where
    2: "caml_iterate_global_roots H f Global_roots ?s1 = Some s2" by blast
  from iterate_shape [OF sc1 2] have sc2: "scanning s2" by simp
  from iterate_ascending [OF sc1 2 asc1] have asc2: "lists_ascending s2" .
  from iterate_returns [OF assms(1) sc2 asc2] obtain s3 where
    3: "caml_iterate_global_roots H f Global_roots_young s2 = Some s3" by blast
  from lock it 2 3 show ?thesis
    by (simp add: caml_scan_global_young_roots_def Let_def)
qed

subsection \<open>Roots that hold no block are in no list\<close>

lemma unlistedI:
  assumes "untracked_roots_unlisted H s"
    and "\<And>j. j \<noteq> r \<Longrightarrow> slot s' j = slot s j"
    and "\<And>j. j \<noteq> r \<Longrightarrow> present (caml_global_roots_young s') j \<Longrightarrow>
           present (caml_global_roots_young s) j"
    and "\<And>j. j \<noteq> r \<Longrightarrow> present (caml_global_roots_old s') j \<Longrightarrow>
           present (caml_global_roots_old s) j"
    and "classify_gc_root H (slot s' r) = UNTRACKED \<Longrightarrow>
           \<not> present (caml_global_roots_young s') r \<and> \<not> present (caml_global_roots_old s') r"
    and "classify_gc_root H (slot s' r) = YOUNG \<Longrightarrow> \<not> present (caml_global_roots_old s') r"
  shows "untracked_roots_unlisted H s'"
  unfolding untracked_roots_unlisted_def
proof (intro allI)
  fix j
  show "(classify_gc_root H (slot s' j) = UNTRACKED \<longrightarrow>
            \<not> present (caml_global_roots_young s') j \<and> \<not> present (caml_global_roots_old s') j) \<and>
          (classify_gc_root H (slot s' j) = YOUNG \<longrightarrow> \<not> present (caml_global_roots_old s') j)"
  proof (cases "j = r")
    case True
    with assms(5,6) show ?thesis by blast
  next
    case False
    from assms(1) have
      "classify_gc_root H (slot s j) = UNTRACKED \<longrightarrow>
         \<not> present (caml_global_roots_young s) j \<and> \<not> present (caml_global_roots_old s) j"
      "classify_gc_root H (slot s j) = YOUNG \<longrightarrow> \<not> present (caml_global_roots_old s) j"
      by (simp_all add: untracked_roots_unlisted_def)
    with assms(2) [OF False] assms(3) [OF False] assms(4) [OF False] show ?thesis
      by auto
  qed
qed

lemma insert_lists:
  assumes "caml_insert_global_root l r s = Some s'"
  shows "slot s' = slot s"
    and "present (caml_global_roots_young s') j \<longleftrightarrow>
         present (caml_global_roots_young s) j \<or> (l = Global_roots_young \<and> j = r)"
    and "present (caml_global_roots_old s') j \<longleftrightarrow>
         present (caml_global_roots_old s) j \<or> (l = Global_roots_old \<and> j = r)"
  using insert_present [OF assms, THEN conjunct2, rule_format, of Global_roots_young j]
    insert_present [OF assms, THEN conjunct2, rule_format, of Global_roots_old j]
    insert_present [OF assms, THEN conjunct1]
  by auto

lemma delete_lists:
  assumes "caml_delete_global_root l r s = Some s'"
  shows "slot s' = slot s"
    and "present (caml_global_roots_young s') j \<longleftrightarrow>
         present (caml_global_roots_young s) j \<and> \<not> (l = Global_roots_young \<and> j = r)"
    and "present (caml_global_roots_old s') j \<longleftrightarrow>
         present (caml_global_roots_old s) j \<and> \<not> (l = Global_roots_old \<and> j = r)"
  using delete_present [OF assms, THEN conjunct2, rule_format, of Global_roots_young j]
    delete_present [OF assms, THEN conjunct2, rule_format, of Global_roots_old j]
    delete_present [OF assms, THEN conjunct1]
  by auto

lemma remove_generational_lists:
  assumes "caml_remove_generational_global_root H r s = Some s'"
  shows "slot s' = slot s"
    and "present (caml_global_roots_young s') j \<longleftrightarrow>
         present (caml_global_roots_young s) j \<and>
         \<not> (classify_gc_root H (slot s r) \<noteq> UNTRACKED \<and> j = r)"
    and "present (caml_global_roots_old s') j \<longleftrightarrow>
         present (caml_global_roots_old s) j \<and>
         \<not> (classify_gc_root H (slot s r) = OLD \<and> j = r)"
proof -
  have "slot s' = slot s \<and>
     (present (caml_global_roots_young s') j \<longleftrightarrow>
         present (caml_global_roots_young s) j \<and>
         \<not> (classify_gc_root H (slot s r) \<noteq> UNTRACKED \<and> j = r)) \<and>
     (present (caml_global_roots_old s') j \<longleftrightarrow>
         present (caml_global_roots_old s) j \<and>
         \<not> (classify_gc_root H (slot s r) = OLD \<and> j = r))"
  proof (cases "classify_gc_root H (slot s r)")
    case YOUNG
    with assms have "caml_delete_global_root Global_roots_young r s = Some s'"
      by (simp add: caml_remove_generational_global_root_def)
    from delete_lists [OF this] YOUNG show ?thesis by simp
  next
    case OLD
    with assms obtain s1 where
      1: "caml_delete_global_root Global_roots_old r s = Some s1" and
      2: "caml_delete_global_root Global_roots_young r s1 = Some s'"
      by (auto simp: caml_remove_generational_global_root_def split: bind_splits)
    from delete_lists [OF 1] delete_lists [OF 2] OLD show ?thesis by simp
  next
    case UNTRACKED
    with assms show ?thesis by (simp add: caml_remove_generational_global_root_def)
  qed
  then show "slot s' = slot s"
    and "present (caml_global_roots_young s') j \<longleftrightarrow>
         present (caml_global_roots_young s) j \<and>
         \<not> (classify_gc_root H (slot s r) \<noteq> UNTRACKED \<and> j = r)"
    and "present (caml_global_roots_old s') j \<longleftrightarrow>
         present (caml_global_roots_old s) j \<and>
         \<not> (classify_gc_root H (slot s r) = OLD \<and> j = r)"
    by simp_all
qed

lemma unlisted_unfold:
  assumes "untracked_roots_unlisted H s"
  shows "classify_gc_root H (slot s r) = UNTRACKED \<Longrightarrow> \<not> present (caml_global_roots_young s) r"
    and "classify_gc_root H (slot s r) = UNTRACKED \<Longrightarrow> \<not> present (caml_global_roots_old s) r"
    and "classify_gc_root H (slot s r) = YOUNG \<Longrightarrow> \<not> present (caml_global_roots_old s) r"
  using assms by (simp_all add: untracked_roots_unlisted_def)

lemma insert_global_unlisted:
  assumes "untracked_roots_unlisted H s" and "caml_insert_global_root Global_roots r s = Some s'"
  shows "untracked_roots_unlisted H s'"
  using insert_lists [OF assms(2)] unlisted_unfold [OF assms(1)]
  unfolding untracked_roots_unlisted_def by simp

lemma delete_global_unlisted:
  assumes "untracked_roots_unlisted H s" and "caml_delete_global_root Global_roots r s = Some s'"
  shows "untracked_roots_unlisted H s'"
  using delete_lists [OF assms(2)] unlisted_unfold [OF assms(1)]
  unfolding untracked_roots_unlisted_def by simp

lemma register_generational_unlisted:
  assumes "untracked_roots_unlisted H s"
    and "caml_register_generational_global_root H r s = Some s'"
  shows "untracked_roots_unlisted H s'"
proof (cases "classify_gc_root H (slot s r)")
  case YOUNG
  with assms(2) have i: "caml_insert_global_root Global_roots_young r s = Some s'"
    by (simp add: caml_register_generational_global_root_def)
  show ?thesis
    using insert_lists [OF i] YOUNG unlisted_unfold [OF assms(1)]
    by (intro unlistedI [OF assms(1), of r]) auto
next
  case OLD
  with assms(2) have i: "caml_insert_global_root Global_roots_old r s = Some s'"
    by (simp add: caml_register_generational_global_root_def)
  show ?thesis
    using insert_lists [OF i] OLD unlisted_unfold [OF assms(1)]
    by (intro unlistedI [OF assms(1), of r]) auto
next
  case UNTRACKED
  with assms show ?thesis by (simp add: caml_register_generational_global_root_def)
qed

lemma remove_generational_unlisted:
  assumes "untracked_roots_unlisted H s"
    and "caml_remove_generational_global_root H r s = Some s'"
  shows "untracked_roots_unlisted H s'"
  using remove_generational_lists [OF assms(2)] unlisted_unfold [OF assms(1)]
  by (intro unlistedI [OF assms(1), of r]) auto

lemma modify_generational_unlisted:
  assumes "untracked_roots_unlisted H s"
    and "caml_modify_generational_global_root H r v s = Some s'"
  shows "untracked_roots_unlisted H s'"
proof -
  let ?c = "classify_gc_root H (slot s r)"
  from assms(2) obtain s1 where
    1: "(case classify_gc_root H v of
          YOUNG \<Rightarrow>
            (let c = classify_gc_root H (slot s r) in
             Option.bind
               (if c = OLD then caml_delete_global_root Global_roots_old r s else Some s)
               (\<lambda>s1. if c \<noteq> YOUNG then caml_insert_global_root Global_roots_young r s1
                     else Some s1))
        | OLD \<Rightarrow>
            (if classify_gc_root H (slot s r) = UNTRACKED
             then caml_insert_global_root Global_roots_old r s
             else Some s)
        | UNTRACKED \<Rightarrow> caml_remove_generational_global_root H r s) = Some s1"
    and 2: "s' = s1\<lparr>slot := (slot s1)(r := v)\<rparr>"
    by (auto simp: caml_modify_generational_global_root_def split: bind_splits)
  have fr: "slot s1 = slot s \<and>
      (\<forall>j. j \<noteq> r \<longrightarrow>
         (present (caml_global_roots_young s1) j \<longrightarrow> present (caml_global_roots_young s) j) \<and>
         (present (caml_global_roots_old s1) j \<longrightarrow> present (caml_global_roots_old s) j)) \<and>
      (classify_gc_root H v = UNTRACKED \<longrightarrow>
         \<not> present (caml_global_roots_young s1) r \<and> \<not> present (caml_global_roots_old s1) r) \<and>
      (classify_gc_root H v = YOUNG \<longrightarrow> \<not> present (caml_global_roots_old s1) r)"
  proof (cases "classify_gc_root H v")
    case YOUNG
    from 1 YOUNG obtain s0 where
      a: "(if ?c = OLD then caml_delete_global_root Global_roots_old r s else Some s) = Some s0"
      and b: "(if ?c \<noteq> YOUNG then caml_insert_global_root Global_roots_young r s0
               else Some s0) = Some s1"
      by (auto simp: Let_def split: bind_splits)
    have a': "slot s0 = slot s \<and>
        (\<forall>j. present (caml_global_roots_young s0) j = present (caml_global_roots_young s) j) \<and>
        (\<forall>j. present (caml_global_roots_old s0) j \<longrightarrow> present (caml_global_roots_old s) j) \<and>
        \<not> present (caml_global_roots_old s0) r"
    proof (cases ?c)
      case OLD
      with a have "caml_delete_global_root Global_roots_old r s = Some s0" by simp
      from delete_lists [OF this] show ?thesis by simp
    next
      case YOUNG
      with a unlisted_unfold(3) [OF assms(1), of r] show ?thesis by auto
    next
      case UNTRACKED
      with a unlisted_unfold(2) [OF assms(1), of r] show ?thesis by auto
    qed
    have b': "slot s1 = slot s0 \<and>
        (\<forall>j. j \<noteq> r \<longrightarrow>
           present (caml_global_roots_young s1) j = present (caml_global_roots_young s0) j) \<and>
        (\<forall>j. present (caml_global_roots_old s1) j = present (caml_global_roots_old s0) j)"
    proof (cases "?c \<noteq> YOUNG")
      case True
      with b have "caml_insert_global_root Global_roots_young r s0 = Some s1" by simp
      from insert_lists [OF this] show ?thesis by simp
    next
      case False
      with b show ?thesis by simp
    qed
    from a' b' YOUNG show ?thesis by auto
  next
    case OLD
    show ?thesis
    proof (cases "?c = UNTRACKED")
      case True
      with 1 OLD have "caml_insert_global_root Global_roots_old r s = Some s1" by simp
      from insert_lists [OF this] OLD show ?thesis by simp
    next
      case False
      with 1 OLD show ?thesis by simp
    qed
  next
    case UNTRACKED
    with 1 have rm: "caml_remove_generational_global_root H r s = Some s1" by simp
    have "\<not> present (caml_global_roots_young s1) r \<and> \<not> present (caml_global_roots_old s1) r"
    proof (cases ?c)
      case YOUNG
      with remove_generational_lists [OF rm] unlisted_unfold(3) [OF assms(1), of r]
      show ?thesis by simp
    next
      case OLD
      with remove_generational_lists [OF rm] show ?thesis by simp
    next
      case u: UNTRACKED
      with remove_generational_lists [OF rm] unlisted_unfold(1,2) [OF assms(1), of r]
      show ?thesis by simp
    qed
    with remove_generational_lists [OF rm] UNTRACKED show ?thesis by simp
  qed
  show ?thesis
    using fr 2 by (intro unlistedI [OF assms(1), of r]) auto
qed

lemma run_step_unlisted:
  assumes "untracked_roots_unlisted H s" and "stores_old H c"
    and "run_step H c s = Some s'"
  shows "untracked_roots_unlisted H s'"
proof (cases c)
  case (Store r v)
  with assms(2,3) have e: "s' = s\<lparr>slot := (slot s)(r := v)\<rparr>"
    and b: "classify_gc_root H v = OLD"
    by auto
  show ?thesis
    using e b by (intro unlistedI [OF assms(1), of r]) auto
next
  case (Register_global_root r)
  with assms show ?thesis
    by (simp add: caml_register_global_root_def insert_global_unlisted)
next
  case (Remove_global_root r)
  with assms show ?thesis
    by (simp add: caml_remove_global_root_def delete_global_unlisted)
next
  case (Register_generational_global_root r)
  with assms show ?thesis by (simp add: register_generational_unlisted)
next
  case (Remove_generational_global_root r)
  with assms show ?thesis by (simp add: remove_generational_unlisted)
next
  case (Modify_generational_global_root r v)
  with assms show ?thesis by (simp add: modify_generational_unlisted)
qed

lemma unlisted_fields [simp]:
  "untracked_roots_unlisted H (s\<lparr>scanned := x\<rparr>) = untracked_roots_unlisted H s"
  "untracked_roots_unlisted H (s\<lparr>roots_mutex := b\<rparr>) = untracked_roots_unlisted H s"
  "untracked_roots_unlisted H (s\<lparr>iterating_roots := i\<rparr>) = untracked_roots_unlisted H s"
  by (simp_all add: untracked_roots_unlisted_def)

lemma run_steps_unlisted:
  "untracked_roots_unlisted H s \<Longrightarrow> \<forall>c \<in> set cs. stores_old H c \<Longrightarrow>
   run_steps H cs s = Some s' \<Longrightarrow> untracked_roots_unlisted H s'"
proof (induction cs arbitrary: s)
  case Nil
  then show ?case by simp
next
  case (Cons c cs)
  from Cons.prems(3) obtain s1 where
    1: "run_step H c s = Some s1" and 2: "run_steps H cs s1 = Some s'"
    by (auto split: bind_splits)
  from Cons.prems(2) have c: "stores_old H c" and cs: "\<forall>c \<in> set cs. stores_old H c"
    by simp_all
  from run_step_unlisted [OF Cons.prems(1) c 1] have "untracked_roots_unlisted H s1" .
  from Cons.IH [OF this cs 2] show ?case .
qed

lemma call_action_unlisted:
  assumes "marking H f" and "untracked_roots_unlisted H s"
    and "call_action H f k s = Some s'"
  shows "untracked_roots_unlisted H s'"
proof -
  from assms(1) have "\<forall>c \<in> set (f (slot s k) k). stores_old H c"
    by (simp add: marking_def)
  moreover have "untracked_roots_unlisted H (s\<lparr>scanned := scanned s @ [(slot s k, k)]\<rparr>)"
    using assms(2) by simp
  ultimately show ?thesis
    using assms(3) run_steps_unlisted unfolding call_action_def by blast
qed

lemma unlink_unlisted:
  assumes "untracked_roots_unlisted H s"
  shows "untracked_roots_unlisted H (assign l (caml_skiplist_remove (deref l s) k) s)"
proof -
  let ?s' = "assign l (caml_skiplist_remove (deref l s) k) s"
  have "present (caml_global_roots_young ?s') j \<Longrightarrow> present (caml_global_roots_young s) j"
    and "present (caml_global_roots_old ?s') j \<Longrightarrow> present (caml_global_roots_old s) j" for j
    by (cases l; simp add: present_remove)+
  then show ?thesis
    using assms unfolding untracked_roots_unlisted_def by auto
qed

lemma foreach_cell_unlisted:
  "marking H f \<Longrightarrow> untracked_roots_unlisted H s \<Longrightarrow>
   foreach_cell H f l ks s = Some s' \<Longrightarrow> untracked_roots_unlisted H s'"
proof (induction ks arbitrary: s)
  case Nil
  then show ?case by simp
next
  case (Cons k ks)
  from Cons.prems(3) obtain d where d: "map_of (deref l s) k = Some d"
    by (auto split: option.splits)
  from Cons.prems(3) d obtain s1 where
    1: "(if d = ROOT_DELETED
         then Some (assign l (caml_skiplist_remove (deref l s) k) s)
         else call_action H f k s) = Some s1"
    and 2: "foreach_cell H f l ks s1 = Some s'"
    by (auto split: bind_splits)
  have "untracked_roots_unlisted H s1"
  proof (cases "d = ROOT_DELETED")
    case True
    with 1 have "s1 = assign l (caml_skiplist_remove (deref l s) k) s" by simp
    with unlink_unlisted [OF Cons.prems(2)] show ?thesis by simp
  next
    case False
    with 1 have "call_action H f k s = Some s1" by simp
    from call_action_unlisted [OF Cons.prems(1,2) this] show ?thesis .
  qed
  from Cons.IH [OF Cons.prems(1) this 2] show ?case .
qed

lemma iterate_unlisted:
  assumes "marking H f" and "untracked_roots_unlisted H s"
    and "caml_iterate_global_roots H f l s = Some s'"
  shows "untracked_roots_unlisted H s'"
proof -
  from assms(3) have "foreach_cell H f l (map fst (deref l s)) s = Some s'"
    by (simp add: caml_iterate_global_roots_def split: if_splits)
  from foreach_cell_unlisted [OF assms(1,2) this] show ?thesis .
qed

lemma scan_global_roots_unlisted:
  assumes "marking H f" and "untracked_roots_unlisted H s"
    and "caml_scan_global_roots H f s = Some s'"
  shows "untracked_roots_unlisted H s'"
proof -
  from assms(3) obtain s1 s2 s3 s4 where
    l: "caml_plat_lock_blocking s = Some s1" and
    2: "caml_iterate_global_roots H f Global_roots
          (s1\<lparr>iterating_roots := iterating_roots s1 + 1\<rparr>) = Some s2" and
    3: "caml_iterate_global_roots H f Global_roots_young s2 = Some s3" and
    4: "caml_iterate_global_roots H f Global_roots_old s3 = Some s4" and
    e: "s' = caml_plat_unlock (s4\<lparr>iterating_roots := iterating_roots s4 - 1\<rparr>)"
    by (auto simp: caml_scan_global_roots_def split: bind_splits)
  from l have "s1 = s\<lparr>roots_mutex := True\<rparr>"
    by (simp add: caml_plat_lock_blocking_def split: if_splits)
  with assms(2) have
    "untracked_roots_unlisted H (s1\<lparr>iterating_roots := iterating_roots s1 + 1\<rparr>)"
    by simp
  from iterate_unlisted [OF assms(1) this 2] have "untracked_roots_unlisted H s2" .
  from iterate_unlisted [OF assms(1) this 3] have "untracked_roots_unlisted H s3" .
  from iterate_unlisted [OF assms(1) this 4] have "untracked_roots_unlisted H s4" .
  with e show ?thesis by (simp add: caml_plat_unlock_def)
qed

lemma run_steps_old_stores:
  "\<forall>c \<in> set cs. is_store c \<and> stores_old H c \<Longrightarrow>
   \<exists>m. run_steps H cs s = Some (s\<lparr>slot := m\<rparr>) \<and>
       (\<forall>j. m j = slot s j \<or> classify_gc_root H (m j) = OLD) \<and>
       (\<forall>r w. Store r w \<in> set cs \<longrightarrow> classify_gc_root H (m r) = OLD)"
proof (induction cs arbitrary: s)
  case Nil
  have "run_steps H [] s = Some (s\<lparr>slot := slot s\<rparr>)" by simp
  then show ?case by fastforce
next
  case (Cons c cs)
  then obtain r v where c: "c = Store r v" and v: "classify_gc_root H v = OLD"
    by (cases c) auto
  let ?s1 = "s\<lparr>slot := (slot s)(r := v)\<rparr>"
  from Cons.prems have "\<forall>c \<in> set cs. is_store c \<and> stores_old H c" by simp
  from Cons.IH [OF this, of ?s1] obtain m where
    m: "run_steps H cs ?s1 = Some (?s1\<lparr>slot := m\<rparr>)"
      "\<forall>j. m j = slot ?s1 j \<or> classify_gc_root H (m j) = OLD"
      "\<forall>r w. Store r w \<in> set cs \<longrightarrow> classify_gc_root H (m r) = OLD"
    by blast
  have 1: "run_steps H (c # cs) s = Some (s\<lparr>slot := m\<rparr>)"
    using m(1) c by simp
  have 2: "\<forall>j. m j = slot s j \<or> classify_gc_root H (m j) = OLD"
    using m(2) v by (auto split: if_splits)
  have "classify_gc_root H (m r) = OLD"
    using m(2) [rule_format, of r] v by auto
  with m(3) c have 3: "\<forall>r' w. Store r' w \<in> set (c # cs) \<longrightarrow> classify_gc_root H (m r') = OLD"
    by auto
  from 1 2 3 show ?case by blast
qed

lemma oldifying_marking: "oldifying H f \<Longrightarrow> marking H f"
  by (simp add: oldifying_def marking_def)

lemma call_action_oldify:
  assumes "oldifying H f" and "classify_gc_root H (slot s k) \<noteq> UNTRACKED"
  shows "\<exists>m. call_action H f k s =
       Some (s\<lparr>scanned := scanned s @ [(slot s k, k)], slot := m\<rparr>) \<and>
     (\<forall>j. m j = slot s j \<or> classify_gc_root H (m j) = OLD) \<and>
     classify_gc_root H (m k) = OLD"
proof -
  let ?s0 = "s\<lparr>scanned := scanned s @ [(slot s k, k)]\<rparr>"
  from assms(1) have a: "\<forall>c \<in> set (f (slot s k) k). is_store c \<and> stores_old H c"
    and b: "classify_gc_root H (slot s k) = YOUNG \<longrightarrow> (\<exists>w. Store k w \<in> set (f (slot s k) k))"
    by (simp_all add: oldifying_def)
  from run_steps_old_stores [OF a, of ?s0] obtain m where
    m: "run_steps H (f (slot s k) k) ?s0 = Some (?s0\<lparr>slot := m\<rparr>)"
      "\<forall>j. m j = slot ?s0 j \<or> classify_gc_root H (m j) = OLD"
      "\<forall>r w. Store r w \<in> set (f (slot s k) k) \<longrightarrow> classify_gc_root H (m r) = OLD"
    by blast
  have "classify_gc_root H (m k) = OLD"
  proof (cases "classify_gc_root H (slot s k)")
    case YOUNG
    with b m(3) show ?thesis by blast
  next
    case OLD
    with m(2) [rule_format, of k] show ?thesis by auto
  next
    case UNTRACKED
    with assms(2) show ?thesis by simp
  qed
  with m(1,2) show ?thesis
    by (auto simp: call_action_def)
qed

lemma foreach_cell_oldify:
  assumes "oldifying H f"
  shows "foreach_cell H f l ks s = Some s' \<Longrightarrow>
     \<forall>k \<in> set ks. present (deref l s) k \<longrightarrow> classify_gc_root H (slot s k) \<noteq> UNTRACKED \<Longrightarrow>
     (\<forall>j. slot s' j = slot s j \<or> classify_gc_root H (slot s' j) = OLD) \<and>
     (\<forall>k. k \<in> keys (deref l s') \<longrightarrow>
        k \<in> keys (deref l s) \<and> (k \<in> set ks \<longrightarrow> classify_gc_root H (slot s' k) = OLD))"
proof (induction ks arbitrary: s)
  case Nil
  then show ?case by simp
next
  case (Cons k ks)
  from Cons.prems(1) obtain d where d: "map_of (deref l s) k = Some d"
    by (auto split: option.splits)
  show ?case
  proof (cases "d = ROOT_DELETED")
    case True
    let ?s1 = "assign l (caml_skiplist_remove (deref l s) k) s"
    from Cons.prems(1) d True have 2: "foreach_cell H f l ks ?s1 = Some s'"
      by simp
    have h: "\<forall>k' \<in> set ks. present (deref l ?s1) k' \<longrightarrow>
        classify_gc_root H (slot ?s1 k') \<noteq> UNTRACKED"
      using Cons.prems(2) by (simp add: present_remove)
    from Cons.IH [OF 2 h] have
      ih: "\<forall>j. slot s' j = slot ?s1 j \<or> classify_gc_root H (slot s' j) = OLD"
        "\<forall>k'. k' \<in> keys (deref l s') \<longrightarrow>
          k' \<in> keys (deref l ?s1) \<and> (k' \<in> set ks \<longrightarrow> classify_gc_root H (slot s' k') = OLD)"
      by simp_all
    from ih(1) have a: "\<forall>j. slot s' j = slot s j \<or> classify_gc_root H (slot s' j) = OLD"
      by simp
    from ih(2) have b: "\<forall>k'. k' \<in> keys (deref l s') \<longrightarrow>
        k' \<in> keys (deref l s) \<and>
        (k' \<in> set (k # ks) \<longrightarrow> classify_gc_root H (slot s' k') = OLD)"
      by (auto simp: keys_remove)
    from a b show ?thesis by simp
  next
    case False
    then have p: "present (deref l s) k"
      using d by (simp add: present_def)
    with Cons.prems(2) have "classify_gc_root H (slot s k) \<noteq> UNTRACKED"
      by simp
    from call_action_oldify [OF assms this] obtain m where
      m: "call_action H f k s = Some (s\<lparr>scanned := scanned s @ [(slot s k, k)], slot := m\<rparr>)"
        "\<forall>j. m j = slot s j \<or> classify_gc_root H (m j) = OLD"
        "classify_gc_root H (m k) = OLD"
      by blast
    let ?s1 = "s\<lparr>scanned := scanned s @ [(slot s k, k)], slot := m\<rparr>"
    from Cons.prems(1) d False m(1) have 2: "foreach_cell H f l ks ?s1 = Some s'"
      by simp
    have h: "\<forall>k' \<in> set ks. present (deref l ?s1) k' \<longrightarrow>
        classify_gc_root H (slot ?s1 k') \<noteq> UNTRACKED"
    proof (intro ballI impI)
      fix k' assume "k' \<in> set ks" "present (deref l ?s1) k'"
      with Cons.prems(2) have "classify_gc_root H (slot s k') \<noteq> UNTRACKED" by simp
      with m(2) [rule_format, of k'] show "classify_gc_root H (slot ?s1 k') \<noteq> UNTRACKED"
        by auto
    qed
    from Cons.IH [OF 2 h] have
      ih: "\<forall>j. slot s' j = slot ?s1 j \<or> classify_gc_root H (slot s' j) = OLD"
        "\<forall>k'. k' \<in> keys (deref l s') \<longrightarrow>
          k' \<in> keys (deref l ?s1) \<and> (k' \<in> set ks \<longrightarrow> classify_gc_root H (slot s' k') = OLD)"
      by simp_all
    have a: "slot s' j = slot s j \<or> classify_gc_root H (slot s' j) = OLD" for j
      using ih(1) [rule_format, of j] m(2) [rule_format, of j] by auto
    have "classify_gc_root H (slot s' k) = OLD"
      using ih(1) [rule_format, of k] m(3) by auto
    with ih(2) have b: "\<forall>k'. k' \<in> keys (deref l s') \<longrightarrow>
        k' \<in> keys (deref l s) \<and>
        (k' \<in> set (k # ks) \<longrightarrow> classify_gc_root H (slot s' k') = OLD)"
      by auto
    from a b show ?thesis by simp
  qed
qed

lemma scan_global_young_roots_unlisted:
  assumes "oldifying H f" and "untracked_roots_unlisted H s"
    and "caml_scan_global_young_roots H f s = Some s'"
  shows "untracked_roots_unlisted H s'"
proof -
  from assms(3) obtain s1 s2 s3 where
    l: "caml_plat_lock_blocking s = Some s1" and
    2: "caml_iterate_global_roots H f Global_roots
          (s1\<lparr>iterating_roots := iterating_roots s1 + 1\<rparr>) = Some s2" and
    3: "caml_iterate_global_roots H f Global_roots_young s2 = Some s3" and
    e: "s' = caml_plat_unlock
      ((move_young_to_old s3)\<lparr>iterating_roots := iterating_roots (move_young_to_old s3) - 1\<rparr>)"
    by (auto simp: caml_scan_global_young_roots_def Let_def split: bind_splits)
  note mk = oldifying_marking [OF assms(1)]
  from l have "s1 = s\<lparr>roots_mutex := True\<rparr>"
    by (simp add: caml_plat_lock_blocking_def split: if_splits)
  with assms(2) have
    "untracked_roots_unlisted H (s1\<lparr>iterating_roots := iterating_roots s1 + 1\<rparr>)"
    by simp
  from iterate_unlisted [OF mk this 2] have u2: "untracked_roots_unlisted H s2" .
  from iterate_unlisted [OF mk this 3] have u3: "untracked_roots_unlisted H s3" .
  from 3 have w: "foreach_cell H f Global_roots_young
      (map fst (deref Global_roots_young s2)) s2 = Some s3"
    by (simp add: caml_iterate_global_roots_def split: if_splits)
  have h: "\<forall>k \<in> set (map fst (deref Global_roots_young s2)).
      present (deref Global_roots_young s2) k \<longrightarrow> classify_gc_root H (slot s2 k) \<noteq> UNTRACKED"
    using unlisted_unfold(1) [OF u2] by auto
  from foreach_cell_oldify [OF assms(1) w h] have
    "\<forall>k. k \<in> keys (deref Global_roots_young s3) \<longrightarrow>
        k \<in> keys (deref Global_roots_young s2) \<and>
        (k \<in> set (map fst (deref Global_roots_young s2)) \<longrightarrow>
           classify_gc_root H (slot s3 k) = OLD)"
    by simp
  then have old: "k \<in> keys (caml_global_roots_young s3) \<Longrightarrow>
      classify_gc_root H (slot s3 k) = OLD" for k
    by (auto simp: keys_def)
  have sl: "slot s' = slot s3"
    and y: "caml_global_roots_young s' = []"
    and o: "present (caml_global_roots_old s') j \<longleftrightarrow>
      j \<in> keys (caml_global_roots_young s3) \<or> present (caml_global_roots_old s3) j" for j
    using e
    by (simp_all add: caml_plat_unlock_def move_young_to_old_def caml_skiplist_empty_def
        present_move)
  show ?thesis
    unfolding untracked_roots_unlisted_def
  proof (intro allI)
    fix r
    have ny: "\<not> present (caml_global_roots_young s') r"
      using y by (simp add: present_def)
    have "classify_gc_root H (slot s' r) \<noteq> OLD \<Longrightarrow> r \<notin> keys (caml_global_roots_young s3)"
      using old [of r] sl by auto
    with o [of r] unlisted_unfold(2,3) [OF u3, of r] sl ny
    show "(classify_gc_root H (slot s' r) = UNTRACKED \<longrightarrow>
        \<not> present (caml_global_roots_young s') r \<and> \<not> present (caml_global_roots_old s') r) \<and>
       (classify_gc_root H (slot s' r) = YOUNG \<longrightarrow> \<not> present (caml_global_roots_old s') r)"
      by auto
  qed
qed

lemma run_operation_unlisted:
  assumes "collecting H op" and "untracked_roots_unlisted H s"
    and "run_operation H op s = Some s'"
  shows "untracked_roots_unlisted H s'"
proof (cases op)
  case (Call c)
  with assms(1) have "stores_old H c" by (cases c) simp_all
  with Call assms show ?thesis by (simp add: run_step_unlisted)
next
  case (Scan_global_roots f)
  with assms show ?thesis by (simp add: scan_global_roots_unlisted)
next
  case (Scan_global_young_roots f)
  with assms show ?thesis by (simp add: scan_global_young_roots_unlisted)
qed

lemma run_operations_unlisted:
  "untracked_roots_unlisted H s \<Longrightarrow> \<forall>op \<in> set ops. collecting H op \<Longrightarrow>
   run_operations H ops s = Some s' \<Longrightarrow> untracked_roots_unlisted H s'"
proof (induction ops arbitrary: s)
  case Nil
  then show ?case by simp
next
  case (Cons op ops)
  from Cons.prems(3) obtain s1 where
    1: "run_operation H op s = Some s1" and 2: "run_operations H ops s1 = Some s'"
    by (auto split: bind_splits)
  from Cons.prems(2) have a: "collecting H op" and as: "\<forall>op \<in> set ops. collecting H op"
    by simp_all
  from run_operation_unlisted [OF a Cons.prems(1) 1] have "untracked_roots_unlisted H s1" .
  from Cons.IH [OF this as 2] show ?case .
qed

lemma untracked_roots_in_no_list:
  assumes "\<forall>op \<in> set ops. collecting H op"
    and "run_operations H ops (init_state m) = Some s"
    and "classify_gc_root H (slot s r) = UNTRACKED"
  shows "\<not> present (caml_global_roots_young s) r \<and> \<not> present (caml_global_roots_old s) r"
proof -
  have "untracked_roots_unlisted H (init_state m)"
    by (simp add: untracked_roots_unlisted_def init_state_def present_def
        SKIPLIST_STATIC_INITIALIZER_def)
  from run_operations_unlisted [OF this assms(1,2)] assms(3) show ?thesis
    by (simp add: untracked_roots_unlisted_def)
qed

subsection \<open>Untracking a root that is not live in the old list\<close>

text \<open>
  In an idle state, let \<open>A\<close> hold a block and not be live in the old list, and let \<open>i\<close> be
  a value that is not a block. After registering \<open>A\<close> and modifying it to \<open>i\<close>, \<open>A\<close> is not
  a key of the young list, is not live in the old list, and holds \<open>i\<close>; unregistering \<open>A\<close>
  then returns the state unchanged.
\<close>

lemma untracking_when_not_in_old:
  assumes "idle s"
    and "classify_gc_root H (slot s A) \<noteq> UNTRACKED"
    and "classify_gc_root H i = UNTRACKED"
    and "\<not> present (caml_global_roots_old s) A"
  shows "\<exists>s1 s2.
     caml_register_generational_global_root H A s = Some s1 \<and>
     caml_modify_generational_global_root H A i s1 = Some s2 \<and>
     A \<notin> keys (caml_global_roots_young s2) \<and>
     \<not> present (caml_global_roots_old s2) A \<and>
     (A \<in> keys (caml_global_roots_old s2) \<longrightarrow> A \<in> keys (caml_global_roots_old s)) \<and>
     slot s2 A = i \<and>
     caml_remove_generational_global_root H A s2 = Some s2"
proof (cases "classify_gc_root H (slot s A)")
  case YOUNG
  let ?s1 = "s\<lparr>caml_global_roots_young :=
      caml_skiplist_insert (caml_global_roots_young s) A ROOT_PRESENT\<rparr>"
  let ?s2 = "s\<lparr>caml_global_roots_young :=
      caml_skiplist_remove (caml_skiplist_insert (caml_global_roots_young s) A ROOT_PRESENT) A,
      slot := (slot s)(A := i)\<rparr>"
  have 1: "caml_register_generational_global_root H A s = Some ?s1"
    using assms(1) YOUNG by (simp add: register_young idle_def)
  have "0 < iterating_roots ?s1 \<or> \<not> roots_mutex ?s1"
    using assms(1) by (simp add: idle_def)
  from remove_generational_result [where H = H and r = A, OF this] YOUNG assms(1)
  have "caml_remove_generational_global_root H A ?s1 =
      Some (s\<lparr>caml_global_roots_young :=
        caml_skiplist_remove (caml_skiplist_insert (caml_global_roots_young s) A ROOT_PRESENT) A\<rparr>)"
    by (simp add: removed_from_def idle_def)
  then have 2: "caml_modify_generational_global_root H A i ?s1 = Some ?s2"
    using assms(3) by (simp add: modify_untracked)
  have 3: "A \<notin> keys (caml_global_roots_young ?s2)"
    by (simp add: keys_remove)
  have 4: "\<not> present (caml_global_roots_old ?s2) A"
    using assms(4) by simp
  have 5: "caml_remove_generational_global_root H A ?s2 = Some ?s2"
    using assms(3) by (simp add: caml_remove_generational_global_root_def)
  from 1 2 3 4 5 show ?thesis
    by simp
next
  case OLD
  let ?s1 = "s\<lparr>caml_global_roots_old :=
      caml_skiplist_insert (caml_global_roots_old s) A ROOT_PRESENT\<rparr>"
  let ?s2 = "s\<lparr>caml_global_roots_old :=
      caml_skiplist_remove (caml_skiplist_insert (caml_global_roots_old s) A ROOT_PRESENT) A,
      caml_global_roots_young := caml_skiplist_remove (caml_global_roots_young s) A,
      slot := (slot s)(A := i)\<rparr>"
  have 1: "caml_register_generational_global_root H A s = Some ?s1"
    using assms(1) OLD by (simp add: register_old idle_def)
  have "0 < iterating_roots ?s1 \<or> \<not> roots_mutex ?s1"
    using assms(1) by (simp add: idle_def)
  from remove_generational_result [where H = H and r = A, OF this] OLD assms(1)
  have "caml_remove_generational_global_root H A ?s1 =
      Some (s\<lparr>caml_global_roots_old :=
        caml_skiplist_remove (caml_skiplist_insert (caml_global_roots_old s) A ROOT_PRESENT) A,
        caml_global_roots_young := caml_skiplist_remove (caml_global_roots_young s) A\<rparr>)"
    by (simp add: removed_from_def idle_def)
  then have 2: "caml_modify_generational_global_root H A i ?s1 = Some ?s2"
    using assms(3) by (simp add: modify_untracked)
  have 3: "A \<notin> keys (caml_global_roots_young ?s2)"
    by (simp add: keys_remove)
  have 4: "\<not> present (caml_global_roots_old ?s2) A"
    by (simp add: present_remove)
  have 5: "A \<notin> keys (caml_global_roots_old ?s2)"
    by (simp add: keys_remove)
  have 6: "caml_remove_generational_global_root H A ?s2 = Some ?s2"
    using assms(3) by (simp add: caml_remove_generational_global_root_def)
  from 1 2 3 4 5 6 show ?thesis
    by simp
next
  case UNTRACKED
  with assms(2) show ?thesis by simp
qed

section \<open>The claims\<close>

text \<open>
  Claim C1 (invariant I1) says that a root of the young list always holds a reference into
  the young generation. A root that is registered while it points to the young generation
  and is then modified to point to the old generation stays in the young list: the case
  \<^verbatim>\<open>OLD\<close> of \<open>caml_modify_generational_global_root\<close> does nothing when the old class is
  \<^verbatim>\<open>YOUNG\<close> ("the next minor GC will take care of that").
\<close>

theorem young_root_holding_old_counterexample:
  "run_operations test_heap
     [Call (Register_generational_global_root 0x100),
      Call (Modify_generational_global_root 0x100 0x3000)]
     (init_state test_mem) = Some young_root_redirected \<and>
   idle young_root_redirected \<and>
   present (caml_global_roots_young young_root_redirected) 0x100 \<and>
   classify_gc_root test_heap (slot young_root_redirected 0x100) = OLD \<and>
   classify_gc_root test_heap (slot young_root_redirected 0x100) \<noteq> YOUNG"
  by (simp add: action_defs test_defs)

text \<open>
  Claim C1, as the code has it: after any sequence of operations from the initial state,
  whose stores write blocks, no scan is in progress and the mutex is free, and every live
  root of the young list holds a block, pointing either to the young or to the old
  generation.
\<close>

theorem young_roots_hold_heap_references:
  assumes "\<forall>op \<in> set ops. abides H op"
    and "run_operations H ops (init_state m) = Some s"
  shows "idle s \<and>
     (\<forall>r. present (caml_global_roots_young s) r \<longrightarrow>
        classify_gc_root H (slot s r) = YOUNG \<or> classify_gc_root H (slot s r) = OLD)"
proof -
  from init_state_invariant [of m H] have
    "idle (init_state m)" "young_roots_hold_blocks H (init_state m)"
    by simp_all
  from run_operations_invariant [OF this assms] have
    "idle s" "young_roots_hold_blocks H s"
    by simp_all
  moreover have "c \<noteq> UNTRACKED \<longleftrightarrow> c = YOUNG \<or> c = OLD" for c
    by (cases c) simp_all
  ultimately show ?thesis
    by (simp add: young_roots_hold_blocks_def)
qed

theorem young_roots_hold_heap_references_witness:
  "abides test_heap (Call (Register_generational_global_root 0x100)) \<and>
   abides test_heap (Call (Modify_generational_global_root 0x100 0x3000)) \<and>
   run_operations test_heap
     [Call (Register_generational_global_root 0x100),
      Call (Modify_generational_global_root 0x100 0x3000)]
     (init_state test_mem) = Some young_root_redirected \<and>
   idle young_root_redirected \<and>
   present (caml_global_roots_young young_root_redirected) 0x100 \<and>
   (classify_gc_root test_heap (slot young_root_redirected 0x100) = YOUNG \<or>
    classify_gc_root test_heap (slot young_root_redirected 0x100) = OLD)"
proof -
  let ?ops = "[Call (Register_generational_global_root 0x100),
      Call (Modify_generational_global_root 0x100 0x3000)]"
  have a: "\<forall>op \<in> set ?ops. abides test_heap op"
    by simp
  have r: "run_operations test_heap ?ops (init_state test_mem) = Some young_root_redirected"
    by (simp add: action_defs test_defs)
  have p: "present (caml_global_roots_young young_root_redirected) 0x100"
    by (simp add: action_defs test_defs)
  from young_roots_hold_heap_references [OF a r] p r show ?thesis
    by simp
qed

text \<open>
  Claim C2 (P4) says that modifying a root registered as young to point to the old
  generation moves it out of the young list and into the old list. On the root \<^verbatim>\<open>0x100\<close>
  the root is in the young list afterwards, and not in the old list.
\<close>

theorem reclassification_counterexample:
  "classify_gc_root test_heap (slot (init_state test_mem) 0x100) = YOUNG \<and>
   classify_gc_root test_heap 0x3000 = OLD \<and>
   Option.bind (caml_register_generational_global_root test_heap 0x100 (init_state test_mem))
     (caml_modify_generational_global_root test_heap 0x100 0x3000) =
     Some young_root_redirected \<and>
   present (caml_global_roots_young young_root_redirected) 0x100 \<and>
   \<not> present (caml_global_roots_old young_root_redirected) 0x100"
  by (simp add: action_defs test_defs)

text \<open>
  Claim C2, as the code has it: after registering \<open>A\<close> while it points to the young
  generation and modifying it to a value \<open>v\<close> of the old generation, \<open>A\<close> is still live in
  the young list, the young list is as the registration left it, the old list is as it was
  before the registration, and \<open>A\<close> holds \<open>v\<close>.
\<close>

theorem modify_young_root_to_old:
  assumes "\<not> roots_mutex s"
    and "classify_gc_root H (slot s A) = YOUNG"
    and "classify_gc_root H v = OLD"
  shows "\<exists>s1 s2.
     caml_register_generational_global_root H A s = Some s1 \<and>
     caml_modify_generational_global_root H A v s1 = Some s2 \<and>
     present (caml_global_roots_young s2) A \<and>
     caml_global_roots_old s2 = caml_global_roots_old s \<and>
     caml_global_roots_young s2 = caml_global_roots_young s1 \<and>
     slot s2 A = v"
proof -
  let ?s1 = "s\<lparr>caml_global_roots_young :=
      caml_skiplist_insert (caml_global_roots_young s) A ROOT_PRESENT\<rparr>"
  have 1: "caml_register_generational_global_root H A s = Some ?s1"
    using assms(1,2) by (rule register_young)
  have 2: "caml_modify_generational_global_root H A v ?s1 =
      Some (?s1\<lparr>slot := (slot ?s1)(A := v)\<rparr>)"
    using assms(2,3) by (simp add: caml_modify_generational_global_root_def)
  from 1 2 show ?thesis
    by (simp add: present_insert)
qed

theorem modify_young_root_to_old_witness:
  "\<not> roots_mutex (init_state test_mem) \<and>
   classify_gc_root test_heap (slot (init_state test_mem) 0x100) = YOUNG \<and>
   classify_gc_root test_heap 0x3000 = OLD \<and>
   (\<exists>s1 s2.
     caml_register_generational_global_root test_heap 0x100 (init_state test_mem) = Some s1 \<and>
     caml_modify_generational_global_root test_heap 0x100 0x3000 s1 = Some s2 \<and>
     present (caml_global_roots_young s2) 0x100 \<and>
     caml_global_roots_old s2 = caml_global_roots_old (init_state test_mem) \<and>
     caml_global_roots_young s2 = caml_global_roots_young s1 \<and>
     slot s2 0x100 = 0x3000)"
proof -
  have a: "\<not> roots_mutex (init_state test_mem)"
    and b: "classify_gc_root test_heap (slot (init_state test_mem) 0x100) = YOUNG"
    and c: "classify_gc_root test_heap 0x3000 = OLD"
    by (simp_all add: test_defs)
  from modify_young_root_to_old [OF a b c] a b c show ?thesis
    by simp
qed

text \<open>
  Claim C3 (deferred promotion): when the new value is of class \<^verbatim>\<open>OLD\<close> and the root holds
  a value that is not \<^verbatim>\<open>UNTRACKED\<close>, \<open>caml_modify_generational_global_root\<close> returns the
  state it was called in with the new value stored into the root: no list, and nothing
  else, changes.
\<close>

theorem modify_to_old_defers_promotion:
  assumes "classify_gc_root H v = OLD"
    and "classify_gc_root H (slot s r) \<noteq> UNTRACKED"
  shows "caml_modify_generational_global_root H r v s = Some (s\<lparr>slot := (slot s)(r := v)\<rparr>)"
  using assms by (simp add: caml_modify_generational_global_root_def)

theorem modify_to_old_defers_promotion_witness:
  "classify_gc_root test_heap 0x3000 = OLD \<and>
   classify_gc_root test_heap (slot (init_state test_mem) 0x100) \<noteq> UNTRACKED \<and>
   caml_modify_generational_global_root test_heap 0x100 0x3000 (init_state test_mem) =
     Some ((init_state test_mem)\<lparr>slot := (slot (init_state test_mem))(0x100 := 0x3000)\<rparr>)"
proof -
  have a: "classify_gc_root test_heap 0x3000 = OLD"
    by (simp add: run_defs)
  have b: "classify_gc_root test_heap (slot (init_state test_mem) 0x100) \<noteq> UNTRACKED"
    by (simp add: run_defs)
  from modify_to_old_defers_promotion [OF a b] a b show ?thesis
    by simp
qed

text \<open>
  Claim C4 (invariant I3) says that a root holding a value that is not a block is in
  neither the young nor the old list. The run below registers the root \<^verbatim>\<open>0x100\<close> while it
  points to the young generation, and then runs a minor scan whose action gives the root
  the integer \<^verbatim>\<open>Val_long(0)\<close> through \<open>caml_modify_generational_global_root\<close>. The
  modification marks the cell of the young list as deleted, the walk of the minor scan has
  already passed that cell, and "Move young roots to old roots" inserts its key into the
  old list without reading the mark: when the scan has returned the root holds an integer
  and is live in the old list. (Lemma \<open>untracked_roots_in_no_list\<close> above shows the
  invariant for the runs in which the actions of the minor scans only relocate.)
\<close>

theorem untracked_root_promoted_to_old:
  "run_operations test_heap
     [Call (Register_generational_global_root 0x100), Scan_global_young_roots untrack_action]
     (init_state test_mem) = Some untracked_in_old \<and>
   idle untracked_in_old \<and>
   classify_gc_root test_heap (slot untracked_in_old 0x100) = UNTRACKED \<and>
   present (caml_global_roots_old untracked_in_old) 0x100"
  by (simp add: action_defs test_defs Let_def)

text \<open>
  Claim C5 (P3, promotion): in an idle state with ascending lists, let \<open>A\<close> hold a pointer
  into the young generation and not be a live root of the mutable kind, and let the
  scanning actions only store. Then registering \<open>A\<close> puts it into the young list; the minor
  scan returns, leaves the young list empty and \<open>A\<close> live in the old list; and the
  following full scan returns and calls its action on \<open>A\<close> exactly once.
\<close>

theorem promotion_of_young_root:
  assumes "idle s" and "lists_ascending s"
    and "classify_gc_root H (slot s A) = YOUNG"
    and "\<not> present (caml_global_roots s) A"
    and "stores_only f" and "stores_only g"
  shows "\<exists>s1 s2 s3.
     caml_register_generational_global_root H A s = Some s1 \<and>
     present (caml_global_roots_young s1) A \<and>
     caml_scan_global_young_roots H f s1 = Some s2 \<and>
     caml_global_roots_young s2 = [] \<and>
     \<not> present (caml_global_roots_young s2) A \<and>
     present (caml_global_roots_old s2) A \<and>
     caml_scan_global_roots H g s2 = Some s3 \<and>
     visits A s3 = visits A s2 + 1"
proof -
  let ?s1 = "s\<lparr>caml_global_roots_young :=
      caml_skiplist_insert (caml_global_roots_young s) A ROOT_PRESENT\<rparr>"
  have 1: "caml_register_generational_global_root H A s = Some ?s1"
    using assms(1,3) by (simp add: register_young idle_def)
  have p1: "present (caml_global_roots_young ?s1) A"
    by (simp add: present_insert)
  have i1: "idle ?s1" using assms(1) by (simp add: idle_def)
  have a1: "lists_ascending ?s1"
    using ascending_state_insert [OF assms(2), of Global_roots_young A ROOT_PRESENT] by simp
  from scan_global_young_roots_stores [OF assms(5) i1 a1, of H] obtain s2 where
    2: "caml_scan_global_young_roots H f ?s1 = Some s2" "idle s2" "lists_ascending s2"
      "caml_global_roots_young s2 = []"
      "\<forall>j. present (caml_global_roots s2) j = present (caml_global_roots ?s1) j"
      "\<forall>j. present (caml_global_roots_old s2) j \<longleftrightarrow>
        present (caml_global_roots_young ?s1) j \<or> present (caml_global_roots_old ?s1) j"
    by blast
  have y2: "\<not> present (caml_global_roots_young s2) A"
    using 2(4) by (simp add: present_def)
  have o2: "present (caml_global_roots_old s2) A"
    using 2(6) p1 by blast
  have g2: "\<not> present (caml_global_roots s2) A"
    using 2(5) assms(4) by simp
  from scan_global_roots_stores [OF assms(6) 2(2,3), of H A] obtain s3 where
    3: "caml_scan_global_roots H g s2 = Some s3"
      "visits A s3 = visits A s2 +
       (if present (caml_global_roots s2) A then 1 else 0) +
       (if present (caml_global_roots_young s2) A then 1 else 0) +
       (if present (caml_global_roots_old s2) A then 1 else 0)"
    by blast
  have v: "visits A s3 = visits A s2 + 1"
    using 3(2) y2 o2 g2 by simp
  from 1 p1 2(1,4) y2 o2 3(1) v show ?thesis by blast
qed

theorem promotion_of_young_root_witness:
  "idle (init_state test_mem) \<and> lists_ascending (init_state test_mem) \<and>
   classify_gc_root test_heap (slot (init_state test_mem) 0x100) = YOUNG \<and>
   \<not> present (caml_global_roots (init_state test_mem)) 0x100 \<and>
   stores_only relocate_action \<and> stores_only no_action \<and>
   (\<exists>s1 s2 s3.
     caml_register_generational_global_root test_heap 0x100 (init_state test_mem) = Some s1 \<and>
     present (caml_global_roots_young s1) 0x100 \<and>
     caml_scan_global_young_roots test_heap relocate_action s1 = Some s2 \<and>
     caml_global_roots_young s2 = [] \<and>
     \<not> present (caml_global_roots_young s2) 0x100 \<and>
     present (caml_global_roots_old s2) 0x100 \<and>
     caml_scan_global_roots test_heap no_action s2 = Some s3 \<and>
     visits 0x100 s3 = visits 0x100 s2 + 1)"
proof -
  have a: "idle (init_state test_mem)"
    and b: "lists_ascending (init_state test_mem)"
    and c: "classify_gc_root test_heap (slot (init_state test_mem) 0x100) = YOUNG"
    and d: "\<not> present (caml_global_roots (init_state test_mem)) 0x100"
    by (simp_all add: test_defs lists_ascending_def ascending_def)
  have e: "stores_only relocate_action" and f: "stores_only no_action"
    by (simp_all add: stores_only_def action_defs)
  from promotion_of_young_root [OF a b c d e f] a b c d e f show ?thesis
    by simp
qed

text \<open>
  Claim C6 (removal protocol), for any of the three lists \<open>l\<close> and any address \<open>r\<close>. While
  the counter is positive, \<open>caml_delete_global_root\<close> returns, keeps the cells of the list
  and their order, sets the data of the cell of \<open>r\<close> (if there is one) to
  \<^verbatim>\<open>ROOT_DELETED\<close>, and changes no other cell, no other list and not the mutex. When the
  counter is zero and the mutex is free, it returns with the cells of \<open>r\<close> unlinked, the
  other lists unchanged and the mutex free again; when the counter is zero and the mutex
  is taken, the call waits for the mutex (\<open>None\<close>, in a model of one thread). In both modes,
  when \<open>r\<close> is not a key of the list the call returns the state unchanged.
\<close>

theorem delete_global_root_protocol:
  "(0 < iterating_roots s \<longrightarrow>
      (\<exists>s'. caml_delete_global_root l r s = Some s' \<and>
         map fst (deref l s') = map fst (deref l s) \<and>
         (r \<in> keys (deref l s) \<longrightarrow> map_of (deref l s') r = Some ROOT_DELETED) \<and>
         (\<forall>k. k \<noteq> r \<longrightarrow> map_of (deref l s') k = map_of (deref l s) k) \<and>
         (\<forall>l'. l' \<noteq> l \<longrightarrow> deref l' s' = deref l' s) \<and>
         roots_mutex s' = roots_mutex s)) \<and>
   (iterating_roots s = 0 \<and> \<not> roots_mutex s \<longrightarrow>
      (\<exists>s'. caml_delete_global_root l r s = Some s' \<and>
         deref l s' = filter (\<lambda>c. fst c \<noteq> r) (deref l s) \<and>
         keys (deref l s') = keys (deref l s) - {r} \<and>
         (\<forall>l'. l' \<noteq> l \<longrightarrow> deref l' s' = deref l' s) \<and>
         \<not> roots_mutex s')) \<and>
   (iterating_roots s = 0 \<and> roots_mutex s \<longrightarrow> caml_delete_global_root l r s = None) \<and>
   (r \<notin> keys (deref l s) \<and> (0 < iterating_roots s \<or> \<not> roots_mutex s) \<longrightarrow>
      caml_delete_global_root l r s = Some s)"
proof (intro conjI impI)
  assume it: "0 < iterating_roots s"
  let ?s' = "assign l (store_data (deref l s) r ROOT_DELETED) s"
  have "caml_delete_global_root l r s = Some ?s'"
    using it by (rule delete_iterating)
  moreover have "map fst (deref l ?s') = map fst (deref l s)"
    by (simp add: map_fst_store_data)
  moreover have "r \<in> keys (deref l s) \<longrightarrow> map_of (deref l ?s') r = Some ROOT_DELETED"
    by (auto simp: map_of_store_data dest: map_of_Some_keys)
  moreover have "\<forall>k. k \<noteq> r \<longrightarrow> map_of (deref l ?s') k = map_of (deref l s) k"
    by (simp add: map_of_store_data)
  moreover have "\<forall>l'. l' \<noteq> l \<longrightarrow> deref l' ?s' = deref l' s"
    by simp
  moreover have "roots_mutex ?s' = roots_mutex s"
    by simp
  ultimately show "\<exists>s'. caml_delete_global_root l r s = Some s' \<and>
         map fst (deref l s') = map fst (deref l s) \<and>
         (r \<in> keys (deref l s) \<longrightarrow> map_of (deref l s') r = Some ROOT_DELETED) \<and>
         (\<forall>k. k \<noteq> r \<longrightarrow> map_of (deref l s') k = map_of (deref l s) k) \<and>
         (\<forall>l'. l' \<noteq> l \<longrightarrow> deref l' s' = deref l' s) \<and>
         roots_mutex s' = roots_mutex s"
    by blast
next
  assume idle: "iterating_roots s = 0 \<and> \<not> roots_mutex s"
  let ?s' = "assign l (caml_skiplist_remove (deref l s) r) s"
  have "caml_delete_global_root l r s = Some ?s'"
    using idle by (simp add: delete_unlocked)
  moreover have "deref l ?s' = filter (\<lambda>c. fst c \<noteq> r) (deref l s)"
    by (simp add: caml_skiplist_remove_def)
  moreover have "keys (deref l ?s') = keys (deref l s) - {r}"
    by (simp add: keys_remove)
  moreover have "\<forall>l'. l' \<noteq> l \<longrightarrow> deref l' ?s' = deref l' s"
    by simp
  moreover have "\<not> roots_mutex ?s'"
    using idle by simp
  ultimately show "\<exists>s'. caml_delete_global_root l r s = Some s' \<and>
         deref l s' = filter (\<lambda>c. fst c \<noteq> r) (deref l s) \<and>
         keys (deref l s') = keys (deref l s) - {r} \<and>
         (\<forall>l'. l' \<noteq> l \<longrightarrow> deref l' s' = deref l' s) \<and>
         \<not> roots_mutex s'"
    by blast
next
  assume "iterating_roots s = 0 \<and> roots_mutex s"
  then show "caml_delete_global_root l r s = None"
    by (simp add: delete_locked)
next
  assume a: "r \<notin> keys (deref l s) \<and> (0 < iterating_roots s \<or> \<not> roots_mutex s)"
  then have "caml_delete_global_root l r s = Some (assign l (removed_from s (deref l s) r) s)"
    by (simp add: delete_removed_from)
  moreover have "removed_from s (deref l s) r = deref l s"
    using a by (simp add: removed_from_def store_data_absent remove_absent)
  ultimately show "caml_delete_global_root l r s = Some s"
    by simp
qed

theorem delete_global_root_protocol_witness:
  "0 < iterating_roots test_state_scanning \<and>
   caml_delete_global_root Global_roots_young 0x100 test_state_scanning =
     Some (test_state_scanning\<lparr>caml_global_roots_young := [(0x100, ROOT_DELETED)]\<rparr>) \<and>
   iterating_roots test_state = 0 \<and> \<not> roots_mutex test_state \<and>
   caml_delete_global_root Global_roots_young 0x100 test_state =
     Some (test_state\<lparr>caml_global_roots_young := []\<rparr>) \<and>
   0x500 \<notin> keys (deref Global_roots_young test_state) \<and>
   caml_delete_global_root Global_roots_young 0x500 test_state = Some test_state \<and>
   caml_delete_global_root Global_roots_young 0x500 test_state_scanning = Some test_state_scanning"
proof -
  have a: "0 < iterating_roots test_state_scanning"
    and b: "iterating_roots test_state = 0 \<and> \<not> roots_mutex test_state"
    and c: "0x500 \<notin> keys (deref Global_roots_young test_state)"
    and d: "0x500 \<notin> keys (deref Global_roots_young test_state_scanning)"
    by (simp_all add: test_defs)
  from delete_global_root_protocol [of test_state Global_roots_young "0x500"] b c
  have e: "caml_delete_global_root Global_roots_young 0x500 test_state = Some test_state"
    by blast
  from delete_global_root_protocol [of test_state_scanning Global_roots_young "0x500"] a d
  have f: "caml_delete_global_root Global_roots_young 0x500 test_state_scanning =
      Some test_state_scanning"
    by blast
  have g: "caml_delete_global_root Global_roots_young 0x100 test_state_scanning =
     Some (test_state_scanning\<lparr>caml_global_roots_young := [(0x100, ROOT_DELETED)]\<rparr>)"
    "caml_delete_global_root Global_roots_young 0x100 test_state =
     Some (test_state\<lparr>caml_global_roots_young := []\<rparr>)"
    by (simp_all add: test_defs)
  from a b c e f g show ?thesis
    by simp
qed

text \<open>
  Claim C7: \<open>caml_remove_generational_global_root\<close>, when the thread iterates or the mutex
  is free, returns, and by the class of the value of the root: \<^verbatim>\<open>OLD\<close> removes \<open>r\<close> from
  the old list and from the young list; \<^verbatim>\<open>YOUNG\<close> removes it from the young list only;
  \<^verbatim>\<open>UNTRACKED\<close> changes nothing. Removal is \<open>removed_from\<close>: the cell is marked during
  a scan and unlinked otherwise.
\<close>

theorem remove_generational_by_class:
  assumes "0 < iterating_roots s \<or> \<not> roots_mutex s"
  shows "caml_remove_generational_global_root H r s =
     Some (case classify_gc_root H (slot s r) of
        OLD \<Rightarrow>
          s\<lparr>caml_global_roots_old := removed_from s (caml_global_roots_old s) r,
            caml_global_roots_young := removed_from s (caml_global_roots_young s) r\<rparr>
      | YOUNG \<Rightarrow> s\<lparr>caml_global_roots_young := removed_from s (caml_global_roots_young s) r\<rparr>
      | UNTRACKED \<Rightarrow> s)"
  using assms by (rule remove_generational_result)

theorem remove_generational_by_class_witness:
  "(0 < iterating_roots test_state_scanning \<or> \<not> roots_mutex test_state_scanning) \<and>
   classify_gc_root test_heap (slot test_state_scanning 0x100) = YOUNG \<and>
   caml_remove_generational_global_root test_heap 0x100 test_state_scanning =
     Some (test_state_scanning\<lparr>caml_global_roots_young := [(0x100, 1)]\<rparr>) \<and>
   (0 < iterating_roots test_state \<or> \<not> roots_mutex test_state) \<and>
   classify_gc_root test_heap (slot test_state 0x200) = OLD \<and>
   caml_remove_generational_global_root test_heap 0x200 test_state =
     Some (test_state\<lparr>caml_global_roots_old := [], caml_global_roots_young := [(0x100, 0)]\<rparr>)"
proof -
  have a: "0 < iterating_roots test_state_scanning \<or> \<not> roots_mutex test_state_scanning"
    by (simp add: test_defs)
  have b: "0 < iterating_roots test_state \<or> \<not> roots_mutex test_state"
    by (simp add: test_defs)
  have c: "classify_gc_root test_heap (slot test_state_scanning 0x100) = YOUNG"
    by (simp add: test_defs)
  have d: "classify_gc_root test_heap (slot test_state 0x200) = OLD"
    by (simp add: test_defs)
  have e: "removed_from test_state_scanning (caml_global_roots_young test_state_scanning) 0x100
      = [(0x100, 1)]"
    by (simp add: test_defs)
  have f: "removed_from test_state (caml_global_roots_old test_state) 0x200 = []"
    "removed_from test_state (caml_global_roots_young test_state) 0x200 = [(0x100, 0)]"
    by (simp_all add: test_defs)
  from remove_generational_by_class [where H = test_heap and r = "0x100", OF a]
    remove_generational_by_class [where H = test_heap and r = "0x200", OF b]
  show ?thesis
    using a b by (simp add: c d e f)
qed

text \<open>
  Claim C8 (P1, round trip): in an idle state, for an address \<open>A\<close> that holds a pointer
  into the young generation, registering \<open>A\<close> and then unregistering it both return and
  leave the old list as it was. If \<open>A\<close> was not a key of the young list, the registration
  adds one cell to the young list and the unregistration gives back the state before the
  registration: the young list has the length it had. If \<open>A\<close> was not live in the young
  list, whose keys ascend, the young list has as many live cells afterwards as before.
\<close>

theorem register_unregister_round_trip:
  assumes "idle s"
    and "classify_gc_root H (slot s A) = YOUNG"
  shows "\<exists>s1 s2.
     caml_register_generational_global_root H A s = Some s1 \<and>
     present (caml_global_roots_young s1) A \<and>
     caml_remove_generational_global_root H A s1 = Some s2 \<and>
     caml_global_roots_old s2 = caml_global_roots_old s \<and>
     length (caml_global_roots_old s2) = length (caml_global_roots_old s) \<and>
     (A \<notin> keys (caml_global_roots_young s) \<longrightarrow>
        length (caml_global_roots_young s1) = Suc (length (caml_global_roots_young s)) \<and>
        length (caml_global_roots_young s2) = length (caml_global_roots_young s) \<and>
        s2 = s) \<and>
     (ascending (caml_global_roots_young s) \<and> \<not> present (caml_global_roots_young s) A \<longrightarrow>
        live_cells (caml_global_roots_young s1) = Suc (live_cells (caml_global_roots_young s)) \<and>
        live_cells (caml_global_roots_young s2) = live_cells (caml_global_roots_young s))"
proof -
  let ?Y = "caml_global_roots_young s"
  let ?s1 = "s\<lparr>caml_global_roots_young := caml_skiplist_insert ?Y A ROOT_PRESENT\<rparr>"
  let ?s2 = "s\<lparr>caml_global_roots_young := caml_skiplist_remove ?Y A\<rparr>"
  have 1: "caml_register_generational_global_root H A s = Some ?s1"
    using assms by (simp add: register_young idle_def)
  have "0 < iterating_roots ?s1 \<or> \<not> roots_mutex ?s1"
    using assms(1) by (simp add: idle_def)
  from remove_generational_result [where H = H and r = A, OF this] assms
  have 2: "caml_remove_generational_global_root H A ?s1 = Some ?s2"
    by (simp add: removed_from_def idle_def remove_insert)
  have 3: "present (caml_global_roots_young ?s1) A"
    by (simp add: present_insert)
  have 4: "A \<notin> keys ?Y \<longrightarrow>
      length (caml_global_roots_young ?s1) = Suc (length ?Y) \<and>
      length (caml_global_roots_young ?s2) = length ?Y \<and> ?s2 = s"
    by (simp add: length_insert_new remove_absent)
  have 5: "ascending ?Y \<and> \<not> present ?Y A \<longrightarrow>
      live_cells (caml_global_roots_young ?s1) = Suc (live_cells ?Y) \<and>
      live_cells (caml_global_roots_young ?s2) = live_cells ?Y"
  proof
    assume a: "ascending ?Y \<and> \<not> present ?Y A"
    then have r: "live_cells (caml_skiplist_remove ?Y A) = live_cells ?Y"
      by (simp add: live_cells_remove_dead)
    have i: "ascending (caml_skiplist_insert ?Y A ROOT_PRESENT)"
      using a by (simp add: ascending_insert)
    have "live_cells (caml_skiplist_insert ?Y A ROOT_PRESENT) =
        Suc (live_cells (caml_skiplist_remove (caml_skiplist_insert ?Y A ROOT_PRESENT) A))"
      using i by (simp add: live_cells_remove_live present_insert)
    then show "live_cells (caml_global_roots_young ?s1) = Suc (live_cells ?Y) \<and>
      live_cells (caml_global_roots_young ?s2) = live_cells ?Y"
      using r by (simp add: remove_insert)
  qed
  from 1 2 3 4 5 show ?thesis
    by simp
qed

theorem register_unregister_round_trip_witness:
  "idle test_state \<and>
   classify_gc_root test_heap (slot test_state 0x108) = YOUNG \<and>
   0x108 \<notin> keys (caml_global_roots_young test_state) \<and>
   ascending (caml_global_roots_young test_state) \<and>
   \<not> present (caml_global_roots_young test_state) 0x108 \<and>
   Option.bind (caml_register_generational_global_root test_heap 0x108 test_state)
     (caml_remove_generational_global_root test_heap 0x108) = Some test_state \<and>
   (\<exists>s1 s2.
     caml_register_generational_global_root test_heap 0x108 test_state = Some s1 \<and>
     present (caml_global_roots_young s1) 0x108 \<and>
     caml_remove_generational_global_root test_heap 0x108 s1 = Some s2 \<and>
     length (caml_global_roots_old s2) = length (caml_global_roots_old test_state) \<and>
     length (caml_global_roots_young s1) = Suc (length (caml_global_roots_young test_state)) \<and>
     length (caml_global_roots_young s2) = length (caml_global_roots_young test_state) \<and>
     live_cells (caml_global_roots_young s2) = live_cells (caml_global_roots_young test_state) \<and>
     s2 = test_state)"
proof -
  have a: "idle test_state"
    and b: "classify_gc_root test_heap (slot test_state 0x108) = YOUNG"
    and c: "0x108 \<notin> keys (caml_global_roots_young test_state)"
    and d: "ascending (caml_global_roots_young test_state)"
    and e: "\<not> present (caml_global_roots_young test_state) 0x108"
    by (simp_all add: test_defs ascending_def)
  from register_unregister_round_trip [OF a b] a b c d e show ?thesis
    by auto
qed

text \<open>
  Claim C9 (P5, untracking) says that a root registered while it holds a heap value and then
  given a small integer is in neither the young nor the old list. The run below registers
  the root \<^verbatim>\<open>0x100\<close> while it points to the young generation and runs a minor scan whose
  action unregisters the root it is called on: the cell of the young list is marked as
  deleted after the walk has read it, and "Move young roots to old roots" inserts its key
  into the old list. The root, which its client has unregistered, is then registered again,
  still pointing to the young generation, and modified to \<^verbatim>\<open>Val_long(0)\<close>: the case
  \<^verbatim>\<open>YOUNG\<close> of \<open>caml_remove_generational_global_root\<close> deletes from the young list only,
  and the root stays live in the old list, holding an integer. Unregistering it then
  changes nothing, and leaves it there.
\<close>

theorem untracked_root_left_in_old:
  "run_operations test_heap
     [Call (Register_generational_global_root 0x100),
      Scan_global_young_roots unregister_action]
     (init_state test_mem) = Some unregistered_in_old \<and>
   idle unregistered_in_old \<and>
   classify_gc_root test_heap (slot unregistered_in_old 0x100) = YOUNG \<and>
   \<not> present (caml_global_roots_young unregistered_in_old) 0x100 \<and>
   present (caml_global_roots_old unregistered_in_old) 0x100 \<and>
   run_operations test_heap
     [Call (Register_generational_global_root 0x100),
      Call (Modify_generational_global_root 0x100 1)]
     unregistered_in_old = Some untracked_left_in_old \<and>
   idle untracked_left_in_old \<and>
   slot untracked_left_in_old 0x100 = 1 \<and>
   classify_gc_root test_heap 1 = UNTRACKED \<and>
   \<not> present (caml_global_roots_young untracked_left_in_old) 0x100 \<and>
   present (caml_global_roots_old untracked_left_in_old) 0x100 \<and>
   caml_remove_generational_global_root test_heap 0x100 untracked_left_in_old =
     Some untracked_left_in_old"
  by (simp add: action_defs test_defs Let_def)

text \<open>
  Claim C10: "Move young roots to old roots" gives every key of the young list, whatever
  the data of its cell, a cell of the old list with data \<^verbatim>\<open>ROOT_PRESENT\<close>, and empties the
  young list. A minor scan from an idle state with ascending lists returns when its action
  only stores and unregisters. Hence, with any scanning action: a root \<open>A\<close> that is not of
  the mutable kind and that the action has been called on during the scan is live in the
  old list when the scan has returned, whatever the action did to it, unregistering it
  included; and a following full scan, whose action only stores, calls its action on \<open>A\<close>.
\<close>

theorem promotion_ignores_deletion_marks:
  assumes "idle s" and "lists_ascending s"
    and "A \<notin> keys (caml_global_roots s)"
    and "stores_only g"
  shows "(\<forall>k d. (k, d) \<in> set (caml_global_roots_young t) \<longrightarrow>
        map_of (caml_global_roots_old (move_young_to_old t)) k = Some ROOT_PRESENT) \<and>
     caml_global_roots_young (move_young_to_old t) = [] \<and>
     (unregistering H f \<longrightarrow> (\<exists>s'. caml_scan_global_young_roots H f s = Some s')) \<and>
     (\<forall>s' v. caml_scan_global_young_roots H f s = Some s' \<and>
        (v, A) \<in> set (scanned s') \<and> (v, A) \<notin> set (scanned s) \<longrightarrow>
        map_of (caml_global_roots_old s') A = Some ROOT_PRESENT \<and>
        present (caml_global_roots_old s') A \<and>
        (\<exists>s''. caml_scan_global_roots H g s' = Some s'' \<and>
           visits A s'' = visits A s' + 1))"
proof (intro conjI allI impI)
  fix k d
  assume "(k, d) \<in> set (caml_global_roots_young t)"
  then show "map_of (caml_global_roots_old (move_young_to_old t)) k = Some ROOT_PRESENT"
    by (rule move_young_to_old_marks)
next
  show "caml_global_roots_young (move_young_to_old t) = []"
    by (simp add: move_young_to_old_def caml_skiplist_empty_def)
next
  assume "unregistering H f"
  then show "\<exists>s'. caml_scan_global_young_roots H f s = Some s'"
    using assms(1,2) by (rule scan_global_young_roots_returns)
next
  fix s' v
  assume a: "caml_scan_global_young_roots H f s = Some s' \<and>
        (v, A) \<in> set (scanned s') \<and> (v, A) \<notin> set (scanned s)"
  then have r: "caml_scan_global_young_roots H f s = Some s'" by simp
  from scan_global_young_roots_shape [OF r assms(1,2)] a assms(3) have
    1: "idle s'" "lists_ascending s'" "caml_global_roots_young s' = []"
      "map_of (caml_global_roots_old s') A = Some ROOT_PRESENT"
      "keys (caml_global_roots s') \<subseteq> keys (caml_global_roots s)"
    by blast+
  from 1(4) have p: "present (caml_global_roots_old s') A"
    by (simp add: present_def ROOT_PRESENT_def ROOT_DELETED_def)
  from 1(5) assms(3) have g: "\<not> present (caml_global_roots s') A"
    using present_keys by blast
  from 1(3) have y: "\<not> present (caml_global_roots_young s') A"
    by (simp add: present_def)
  from scan_global_roots_stores [OF assms(4) 1(1,2), of H A] p g y
  have 2: "\<exists>s''. caml_scan_global_roots H g s' = Some s'' \<and> visits A s'' = visits A s' + 1"
    by auto
  from 1(4) show "map_of (caml_global_roots_old s') A = Some ROOT_PRESENT" .
  from p show "present (caml_global_roots_old s') A" .
  from 2 show "\<exists>s''. caml_scan_global_roots H g s' = Some s'' \<and>
      visits A s'' = visits A s' + 1" .
qed

theorem promotion_ignores_deletion_marks_witness:
  "idle test_state \<and> lists_ascending test_state \<and>
   0x100 \<notin> keys (caml_global_roots test_state) \<and>
   stores_only no_action \<and>
   unregistering test_heap unregister_action \<and>
   caml_iterate_global_roots test_heap unregister_action Global_roots_young test_state_scanning =
     Some (test_state_scanning
       \<lparr>caml_global_roots_young := [(0x100, ROOT_DELETED)], scanned := [(0x1008, 0x100)]\<rparr>) \<and>
   caml_scan_global_young_roots test_heap unregister_action test_state = Some tombstone_promoted \<and>
   (0x1008, 0x100) \<in> set (scanned tombstone_promoted) \<and>
   (0x1008, 0x100) \<notin> set (scanned test_state) \<and>
   map_of (caml_global_roots_old
     (move_young_to_old (test_state\<lparr>caml_global_roots_young := [(0x100, ROOT_DELETED)]\<rparr>))) 0x100
     = Some ROOT_PRESENT \<and>
   map_of (caml_global_roots_old tombstone_promoted) 0x100 = Some ROOT_PRESENT \<and>
   present (caml_global_roots_old tombstone_promoted) 0x100 \<and>
   (\<exists>s''. caml_scan_global_roots test_heap no_action tombstone_promoted = Some s'' \<and>
      visits 0x100 s'' = visits 0x100 tombstone_promoted + 1)"
proof -
  have a: "idle test_state" and b: "lists_ascending test_state"
    by (simp_all add: test_defs lists_ascending_def ascending_def)
  have c: "caml_scan_global_young_roots test_heap unregister_action test_state =
      Some tombstone_promoted"
    by (simp add: tombstone_promoted_def action_defs test_defs Let_def)
  have d: "(0x1008, 0x100) \<in> set (scanned tombstone_promoted)"
    and e: "(0x1008, 0x100) \<notin> set (scanned test_state)"
    and f: "0x100 \<notin> keys (caml_global_roots test_state)"
    by (simp_all add: tombstone_promoted_def test_defs)
  have g: "stores_only no_action"
    by (simp add: stores_only_def action_defs)
  have u: "unregistering test_heap unregister_action"
    by (simp add: unregistering_def action_defs)
  have h: "caml_iterate_global_roots test_heap unregister_action Global_roots_young
      test_state_scanning =
     Some (test_state_scanning
       \<lparr>caml_global_roots_young := [(0x100, ROOT_DELETED)], scanned := [(0x1008, 0x100)]\<rparr>)"
    by (simp add: action_defs test_defs)
  let ?t = "test_state\<lparr>caml_global_roots_young := [(0x100, ROOT_DELETED)]\<rparr>"
  have i: "(0x100, ROOT_DELETED) \<in> set (caml_global_roots_young ?t)"
    by simp
  from promotion_ignores_deletion_marks
    [OF a b f g, of ?t test_heap unregister_action] i c d e
  have "map_of (caml_global_roots_old (move_young_to_old ?t)) 0x100 = Some ROOT_PRESENT \<and>
     map_of (caml_global_roots_old tombstone_promoted) 0x100 = Some ROOT_PRESENT \<and>
     present (caml_global_roots_old tombstone_promoted) 0x100 \<and>
     (\<exists>s''. caml_scan_global_roots test_heap no_action tombstone_promoted = Some s'' \<and>
        visits 0x100 s'' = visits 0x100 tombstone_promoted + 1)"
    by blast
  with a b c d e f g h u show ?thesis by blast
qed

end
